theory Spec2Isabelle
  imports Main "HOL-Library.Word" "HOL-Library.Sublist"
begin

section \<open>SDWebRecovery: the request handlers of src/main.cpp\<close>

text \<open>
  The sketch serves an SD card over HTTP from an ESP32. Its handlers use three global
  objects: the web server \<^verbatim>\<open>server\<close>, the card \<^verbatim>\<open>SD\<close> and the serial port. The model
  passes them explicitly: the card is a value of type \<open>card\<close>, the request being served a
  value of type \<open>request\<close>, and everything a handler changes (the response under
  construction, the table of open file handles, the serial output, the flag \<open>hasSD\<close>) is a
  field of the record \<open>world\<close>, which every operation takes and returns. Each operation on a
  collaborator also appends an event to \<open>trace\<close>, so the order of effects can be stated.
\<close>

subsection \<open>Machine types\<close>

text \<open>The ESP32 is a 32-bit target: \<^verbatim>\<open>size_t\<close> has 32 bits.\<close>

type_synonym uint8_t = "8 word"
type_synonym size_t = "32 word"
type_synonym uint64_t = "64 word"

subsection \<open>Requests\<close>

datatype HTTPMethod =
  HTTP_GET | HTTP_POST | HTTP_PUT | HTTP_DELETE | HTTP_PATCH | HTTP_HEAD | HTTP_OPTIONS

text \<open>
  A parsed request: path, method and the query arguments in the order received.
  \<open>client_limit\<close> is the number of bytes of a streamed file the connection takes before it
  breaks (\<open>None\<close>: all of them); it decides what \<^verbatim>\<open>server.streamFile\<close> returns.
\<close>

record request =
  uri :: string
  req_method :: HTTPMethod
  args :: "(string \<times> string) list"
  client_limit :: "nat option"

definition hasArg :: "request \<Rightarrow> string \<Rightarrow> bool" where
  "hasArg req name = (name \<in> set (map fst (args req)))"

text \<open>\<^verbatim>\<open>server.arg(name)\<close>: the value of the first argument of that name, or the empty string.\<close>

definition arg :: "request \<Rightarrow> string \<Rightarrow> string" where
  "arg req name = (case map_of (args req) name of None \<Rightarrow> [] | Some v \<Rightarrow> v)"

text \<open>\<^verbatim>\<open>server.argName(i)\<close> and \<^verbatim>\<open>server.arg(i)\<close>: empty when \<open>i\<close> is out of range.\<close>

definition argName :: "request \<Rightarrow> nat \<Rightarrow> string" where
  "argName req i = (if i < length (args req) then fst (args req ! i) else [])"

definition arg_at :: "request \<Rightarrow> nat \<Rightarrow> string" where
  "arg_at req i = (if i < length (args req) then snd (args req ! i) else [])"

subsection \<open>The card: block device and filesystem view\<close>

text \<open>
  A filesystem entry is a regular file with its bytes, or a directory with its children in
  the order the driver enumerates them, each with the path \<^verbatim>\<open>File::path()\<close> reports.
\<close>

datatype node = RegFile string | Directory "(string \<times> node) list"

fun is_dir :: "node \<Rightarrow> bool" where
  "is_dir (Directory _) = True"
| "is_dir (RegFile _) = False"

fun children :: "node \<Rightarrow> (string \<times> node) list" where
  "children (Directory es) = es"
| "children (RegFile _) = []"

fun content :: "node \<Rightarrow> string" where
  "content (RegFile bs) = bs"
| "content (Directory _) = []"

text \<open>
  The block device: \<open>numSectors\<close> sectors of \<open>sectorSize\<close> bytes. Sector \<open>i\<close> holds the bytes
  \<open>sectorByte i 0\<close>, \<open>sectorByte i 1\<close>, ...; \<open>readable i\<close> says whether a raw read of it
  succeeds. A failed read may leave anything in the caller's buffer: \<open>failResidue i buf\<close>.
\<close>

record card =
  numSectors :: uint64_t
  sectorSize :: size_t
  readable :: "nat \<Rightarrow> bool"
  sectorByte :: "nat \<Rightarrow> nat \<Rightarrow> uint8_t"
  failResidue :: "nat \<Rightarrow> uint8_t list \<Rightarrow> uint8_t list"
  files :: "string \<Rightarrow> node option"

definition sectorContent :: "card \<Rightarrow> nat \<Rightarrow> uint8_t list" where
  "sectorContent sd i = map (sectorByte sd i) [0..<unat (sectorSize sd)]"

subsection \<open>The state the handlers change\<close>

text \<open>
  A \<^verbatim>\<open>File\<close> object is empty (\<open>None\<close>, false as a condition) or refers to an open handle, an
  index into the table of open files. Closing or releasing a handle clears its slot; slots
  are never reused, so a handle names one open and at most one close or release.
\<close>

type_synonym File = "nat option"

record ofile =
  of_path :: string
  of_node :: node
  of_cursor :: nat

datatype content_length = CONTENT_LENGTH_NOT_SET | CONTENT_LENGTH_UNKNOWN | ContentLength size_t

datatype event =
    Ev_exists string
  | Ev_open string File
  | Ev_openNextFile nat File
  | Ev_rewindDirectory nat
  | Ev_close nat
  | Ev_release nat
  | Ev_readRAW nat bool
  | Ev_send nat string string
  | Ev_sendContent string
  | Ev_streamFile nat
  | Ev_server_begin
  | Ev_SD_begin bool
  | Ev_write_hasSD bool

record world =
  hasSD :: bool
  open_files :: "ofile option list"
  contentLength :: content_length
  resp_code :: "nat option"
  resp_type :: string
  resp_body :: string
  serial :: string
  trace :: "event list"

definition emit :: "event \<Rightarrow> world \<Rightarrow> world" where
  "emit e w = w\<lparr>trace := trace w @ [e]\<rparr>"

subsection \<open>Serial port\<close>

definition LF :: string where
  "LF = [CHR 0x0A]"

definition CRLF :: string where
  "CRLF = [CHR 0x0D, CHR 0x0A]"

definition Serial_print :: "string \<Rightarrow> world \<Rightarrow> world" where
  "Serial_print s w = w\<lparr>serial := serial w @ s\<rparr>"

definition Serial_println :: "string \<Rightarrow> world \<Rightarrow> world" where
  "Serial_println s w = Serial_print (s @ CRLF) w"

text \<open>Decimal printing of an unsigned number, as \<^verbatim>\<open>print\<close> and \<^verbatim>\<open>String +=\<close> do for integers.\<close>

fun decimal :: "nat \<Rightarrow> string" where
  "decimal n =
     (if n < 10 then [''0123456789'' ! n]
      else decimal (n div 10) @ [''0123456789'' ! (n mod 10)])"

declare decimal.simps [simp del]

subsection \<open>Web server\<close>

definition Server_setContentLength :: "content_length \<Rightarrow> world \<Rightarrow> world" where
  "Server_setContentLength n w = w\<lparr>contentLength := n\<rparr>"

text \<open>\<^verbatim>\<open>server.send(code, type, content)\<close>: status line and headers, then the content.\<close>

definition Server_send :: "nat \<Rightarrow> string \<Rightarrow> string \<Rightarrow> world \<Rightarrow> world" where
  "Server_send code ctype body w =
     emit (Ev_send code ctype body)
       (w\<lparr>resp_code := Some code, resp_type := ctype, resp_body := resp_body w @ body\<rparr>)"

definition Server_sendContent :: "string \<Rightarrow> world \<Rightarrow> world" where
  "Server_sendContent s w = emit (Ev_sendContent s) (w\<lparr>resp_body := resp_body w @ s\<rparr>)"

text \<open>
  \<^verbatim>\<open>server.sendContent_P((char*)data, size)\<close>: the first \<open>size\<close> bytes of the buffer, each
  byte read as a \<open>char\<close>.
\<close>

definition as_char :: "uint8_t \<Rightarrow> char" where
  "as_char b = char_of (unat b)"

definition Server_sendContent_P :: "uint8_t list \<Rightarrow> nat \<Rightarrow> world \<Rightarrow> world" where
  "Server_sendContent_P data n w = Server_sendContent (map as_char (take n data)) w"

subsection \<open>SD library: files\<close>

definition lookup :: "world \<Rightarrow> File \<Rightarrow> ofile option" where
  "lookup w f =
     (case f of None \<Rightarrow> None
      | Some h \<Rightarrow> if h < length (open_files w) then open_files w ! h else None)"

definition SD_exists :: "card \<Rightarrow> string \<Rightarrow> world \<Rightarrow> bool \<times> world" where
  "SD_exists sd path w = (files sd path \<noteq> None, emit (Ev_exists path) w)"

text \<open>\<^verbatim>\<open>SD.open(path)\<close>: a fresh handle on the entry at \<open>path\<close>, or the empty \<^verbatim>\<open>File\<close>.\<close>

definition SD_open :: "card \<Rightarrow> string \<Rightarrow> world \<Rightarrow> File \<times> world" where
  "SD_open sd path w =
     (case files sd path of
        None \<Rightarrow> (None, emit (Ev_open path None) w)
      | Some n \<Rightarrow>
          (Some (length (open_files w)),
           emit (Ev_open path (Some (length (open_files w))))
             (w\<lparr>open_files := open_files w @ [Some \<lparr>of_path = path, of_node = n, of_cursor = 0\<rparr>]\<rparr>)))"

definition File_isDirectory :: "File \<Rightarrow> world \<Rightarrow> bool" where
  "File_isDirectory f w = (case lookup w f of None \<Rightarrow> False | Some e \<Rightarrow> is_dir (of_node e))"

definition File_path :: "File \<Rightarrow> world \<Rightarrow> string" where
  "File_path f w = (case lookup w f of None \<Rightarrow> [] | Some e \<Rightarrow> of_path e)"

definition File_size :: "File \<Rightarrow> world \<Rightarrow> nat" where
  "File_size f w = (case lookup w f of None \<Rightarrow> 0 | Some e \<Rightarrow> length (content (of_node e)))"

text \<open>\<^verbatim>\<open>close()\<close> releases the handle; on an empty \<^verbatim>\<open>File\<close> it does nothing.\<close>

definition File_close :: "File \<Rightarrow> world \<Rightarrow> world" where
  "File_close f w =
     (case f of None \<Rightarrow> w
      | Some h \<Rightarrow> emit (Ev_close h) (w\<lparr>open_files := (open_files w)[h := None]\<rparr>))"

text \<open>
  Modelled from the spec: the \<^verbatim>\<open>File\<close> class of the SD library, which is not part of the
  repository. A \<^verbatim>\<open>File\<close> object owns its handle, which is "scoped to the request: guaranteed
  to be released (closed) on every exit path": when the object is assigned over or its
  scope ends, a handle it still holds open is released. An empty \<^verbatim>\<open>File\<close> and one that was
  closed by \<^verbatim>\<open>close()\<close> hold nothing, and nothing happens. \<^verbatim>\<open>printDirectory\<close> closes every
  \<^verbatim>\<open>File\<close> it holds before its scope ends, so there the end of scope is not written out.
\<close>

definition File_release :: "File \<Rightarrow> world \<Rightarrow> world" where
  "File_release f w =
     (case f of None \<Rightarrow> w
      | Some h \<Rightarrow>
          (case lookup w f of None \<Rightarrow> w
           | Some e \<Rightarrow> emit (Ev_release h) (w\<lparr>open_files := (open_files w)[h := None]\<rparr>)))"

definition File_rewindDirectory :: "File \<Rightarrow> world \<Rightarrow> world" where
  "File_rewindDirectory f w =
     (case f of None \<Rightarrow> w
      | Some h \<Rightarrow>
          (case lookup w f of None \<Rightarrow> w
           | Some e \<Rightarrow>
               emit (Ev_rewindDirectory h)
                 (w\<lparr>open_files := (open_files w)[h := Some (e\<lparr>of_cursor := 0\<rparr>)]\<rparr>)))"

text \<open>
  \<^verbatim>\<open>dir.openNextFile()\<close>: a fresh handle on the child under the cursor, and the cursor moves
  on; the empty \<^verbatim>\<open>File\<close> when the children are exhausted.
\<close>

definition File_openNextFile :: "File \<Rightarrow> world \<Rightarrow> File \<times> world" where
  "File_openNextFile f w =
     (case f of None \<Rightarrow> (None, w)
      | Some h \<Rightarrow>
          (case lookup w f of None \<Rightarrow> (None, w)
           | Some e \<Rightarrow>
               (case drop (of_cursor e) (children (of_node e)) of
                  [] \<Rightarrow> (None, emit (Ev_openNextFile h None) w)
                | (p, n) # _ \<Rightarrow>
                    (Some (length (open_files w)),
                     emit (Ev_openNextFile h (Some (length (open_files w))))
                       (w\<lparr>open_files :=
                            (open_files w)[h := Some (e\<lparr>of_cursor := Suc (of_cursor e)\<rparr>)]
                              @ [Some \<lparr>of_path = p, of_node = n, of_cursor = 0\<rparr>]\<rparr>)))))"

text \<open>
  \<^verbatim>\<open>server.streamFile(file, type)\<close>: declares the file's size as content length, sends the
  headers and writes the file to the client; returns the number of bytes written.
\<close>

definition Server_streamFile :: "request \<Rightarrow> File \<Rightarrow> string \<Rightarrow> world \<Rightarrow> nat \<times> world" where
  "Server_streamFile req f ctype w =
     (let bytes = (case lookup w f of None \<Rightarrow> [] | Some e \<Rightarrow> content (of_node e));
          sent = (case client_limit req of None \<Rightarrow> bytes | Some k \<Rightarrow> take k bytes);
          w1 = Server_setContentLength (ContentLength (of_nat (length bytes))) w;
          w2 = Server_send 200 ctype [] w1
      in (length sent, emit (Ev_streamFile (length sent)) (w2\<lparr>resp_body := resp_body w2 @ sent\<rparr>)))"

subsection \<open>SD library: raw sectors\<close>

text \<open>
  \<^verbatim>\<open>SD.readRAW(buffer, sector)\<close>: on success the buffer holds the sector; on failure it
  holds whatever the failed transfer left.
\<close>

definition SD_readRAW :: "card \<Rightarrow> uint8_t list \<Rightarrow> uint64_t \<Rightarrow> world \<Rightarrow> (bool \<times> uint8_t list) \<times> world" where
  "SD_readRAW sd data sector w =
     (if readable sd (unat sector)
      then ((True, sectorContent sd (unat sector)), emit (Ev_readRAW (unat sector) True) w)
      else ((False, failResidue sd (unat sector) data), emit (Ev_readRAW (unat sector) False) w))"

text \<open>\<^verbatim>\<open>memset(data, c, n)\<close>: the first \<open>n\<close> bytes become \<open>c\<close>.\<close>

definition memset :: "uint8_t list \<Rightarrow> uint8_t \<Rightarrow> nat \<Rightarrow> uint8_t list" where
  "memset data c n = replicate n c @ drop n data"

section \<open>The handlers\<close>

subsection \<open>returnOK, returnFail\<close>

definition returnOK :: "world \<Rightarrow> world" where
  "returnOK w = Server_send 200 ''text/plain'' [] w"

definition returnFail :: "string \<Rightarrow> world \<Rightarrow> world" where
  "returnFail msg w = Server_send 500 ''text/plain'' (msg @ CRLF) w"

subsection \<open>streamRaw\<close>

definition DAMAGEDSECTOR :: uint8_t where
  "DAMAGEDSECTOR = 0xE5"

lemma uint64_succ:
  fixes sector sectors :: uint64_t
  assumes "sector < sectors"
  shows "unat (sector + 1) = Suc (unat sector)"
proof -
  have "unat sector < unat sectors"
    using assms by (simp add: word_less_nat_alt)
  moreover have "unat sectors < 2 ^ 64"
    using unsigned_less [of sectors] by simp
  ultimately have "unat sector + unat (1 :: uint64_t) < 2 ^ LENGTH(64)"
    by simp
  then have "unat (sector + 1) = unat sector + unat (1 :: uint64_t)"
    by (simp only: unat_add_lem)
  then show ?thesis by simp
qed

text \<open>
  The loop of \<^verbatim>\<open>streamRaw\<close>, from the state at its head: the buffer \<open>data\<close> and the 64-bit
  counter \<open>sector\<close>.
\<close>

function streamRaw_loop ::
  "card \<Rightarrow> uint64_t \<Rightarrow> size_t \<Rightarrow> uint8_t list \<Rightarrow> uint64_t \<Rightarrow> world \<Rightarrow> world" where
  "streamRaw_loop sd sectors sectorSize' data sector w =
     (if sector < sectors then
        (case SD_readRAW sd data sector w of
           ((ok, data1), w1) \<Rightarrow>
             (let (data2, w2) =
                    (if \<not> ok
                     then (memset data1 DAMAGEDSECTOR (unat sectorSize'),
                           Serial_println (decimal (unat sector))
                             (Serial_print ''Error reading sector '' w1))
                     else (data1, w1));
                  w3 = Server_sendContent_P data2 (unat sectorSize') w2
              in streamRaw_loop sd sectors sectorSize' data2 (sector + 1) w3))
      else w)"
  by pat_completeness auto
termination
proof (relation "measure (\<lambda>(sd, sectors, ss, data, sector, w). unat sectors - unat sector)")
  show "wf (measure (\<lambda>(sd, sectors, ss, data, sector, w). unat sectors - unat sector))"
    by simp
next
  fix sd :: card and sectors sector :: uint64_t and ss :: size_t and data data2 :: "uint8_t list"
    and w w3 :: world
  assume "sector < sectors"
  then have "unat (sector + 1) = Suc (unat sector)" and "unat sector < unat sectors"
    by (simp_all add: uint64_succ word_less_nat_alt)
  then show "((sd, sectors, ss, data2, sector + 1, w3), (sd, sectors, ss, data, sector, w))
      \<in> measure (\<lambda>(sd, sectors, ss, data, sector, w). unat sectors - unat sector)"
    by simp
qed

declare streamRaw_loop.simps [simp del]

definition streamRaw :: "card \<Rightarrow> world \<Rightarrow> world" where
  "streamRaw sd w =
     (let sectors = numSectors sd;
          sectorSize' = sectorSize sd;
          sdSize = (ucast (sectors * ucast sectorSize') :: size_t);
          w1 = Serial_print (decimal (unat sectors)) w;
          w2 = Serial_print '' sectors, '' w1;
          w3 = Serial_print (decimal (unat sectorSize')) w2;
          w4 = Serial_print '' bytes per sector, '' w3;
          w5 = Serial_print (decimal (unat sdSize)) w4;
          w6 = Serial_println '' bytes.'' w5;
          data = memset (replicate (unat sectorSize') 0) 0 (unat sectorSize');
          w7 = Server_setContentLength (ContentLength sdSize) w6;
          w8 = Server_send 200 ''application/octet-stream'' [] w7
      in streamRaw_loop sd sectors sectorSize' data 0 w8)"

subsection \<open>printDirectory\<close>

text \<open>The number of children a directory handle has not yet enumerated.\<close>

definition remaining :: "File \<Rightarrow> world \<Rightarrow> nat" where
  "remaining dir w =
     (case lookup w dir of None \<Rightarrow> 0
      | Some e \<Rightarrow> length (children (of_node e)) - of_cursor e)"

lemma openNextFile_remaining:
  assumes "File_openNextFile dir w = (Some h, w1)"
  shows "remaining dir (File_close (Some h) (Server_sendContent s w1)) < remaining dir w"
proof -
  from assms obtain d where d: "dir = Some d"
    by (cases dir) (simp_all add: File_openNextFile_def)
  from assms d obtain e where e: "lookup w (Some d) = Some e"
    by (cases "lookup w (Some d)") (simp_all add: File_openNextFile_def)
  then have dlt: "d < length (open_files w)" and nth: "open_files w ! d = Some e"
    by (simp_all add: lookup_def split: if_splits)
  from assms d e obtain p n rest where dr: "drop (of_cursor e) (children (of_node e)) = (p, n) # rest"
    by (cases "drop (of_cursor e) (children (of_node e))") (auto simp: File_openNextFile_def)
  then have cur: "of_cursor e < length (children (of_node e))"
    by (cases "of_cursor e < length (children (of_node e))") simp_all
  from assms d e dr have h: "h = length (open_files w)"
    and w1: "open_files w1 = (open_files w)[d := Some (e\<lparr>of_cursor := Suc (of_cursor e)\<rparr>)]
               @ [Some \<lparr>of_path = p, of_node = n, of_cursor = 0\<rparr>]"
    by (auto simp: File_openNextFile_def emit_def)
  have "lookup (File_close (Some h) (Server_sendContent s w1)) (Some d)
          = Some (e\<lparr>of_cursor := Suc (of_cursor e)\<rparr>)"
    using dlt by (simp add: lookup_def File_close_def Server_sendContent_def emit_def w1 h nth_append)
  then show ?thesis
    using cur by (simp add: remaining_def d e)
qed

function printDirectory_loop :: "File \<Rightarrow> nat \<Rightarrow> world \<Rightarrow> world" where
  "printDirectory_loop dir cnt w =
     (case File_openNextFile dir w of
        (None, w1) \<Rightarrow> w1
      | (Some h, w1) \<Rightarrow>
          (let entry = Some h;
               output = (if cnt > 0 then '','' else []);
               output = output @ ''{\"type\":\"'';
               output = output @ (if File_isDirectory entry w1 then ''dir'' else ''file'');
               output = output @ ''\",\"name\":\"'';
               output = output @ File_path entry w1;
               output = output @ ''\"'';
               output = output @ ''}'';
               w2 = Server_sendContent output w1;
               w3 = File_close entry w2
           in printDirectory_loop dir (cnt + 1) w3))"
  by pat_completeness (simp only: prod.inject)
termination
proof (relation "measure (\<lambda>(dir, cnt, w). remaining dir w)")
  show "wf (measure (\<lambda>(dir, cnt, w). remaining dir w))"
    by simp
next
  fix dir :: File and cnt h :: nat and w w1 w2 w3 :: world and f entry :: File and out :: string
  assume "(f, w1) = File_openNextFile dir w" and "f = Some h" and "entry = Some h"
    and "w2 = Server_sendContent out w1" and "w3 = File_close entry w2"
  then have "File_openNextFile dir w = (Some h, w1)" and "w3 = File_close (Some h) (Server_sendContent out w1)"
    by simp_all
  then have "remaining dir w3 < remaining dir w"
    by (simp add: openNextFile_remaining)
  then show "((dir, cnt + 1, w3), (dir, cnt, w)) \<in> measure (\<lambda>(dir, cnt, w). remaining dir w)"
    by simp
qed

declare printDirectory_loop.simps [simp del]


definition printDirectory :: "card \<Rightarrow> request \<Rightarrow> world \<Rightarrow> world" where
  "printDirectory sd req w =
     (if \<not> hasArg req ''dir'' then returnFail ''BAD ARGS'' w
      else
        (let path = arg req ''dir'';
             (missing, w1) =
               (if path \<noteq> ''/''
                then (case SD_exists sd path w of (found, w') \<Rightarrow> (\<not> found, w'))
                else (False, w))
         in if missing then returnFail ''BAD PATH'' w1
            else
              (case SD_open sd path w1 of
                 (dir, w2) \<Rightarrow>
                   if \<not> File_isDirectory dir w2
                   then (let w3 = File_close dir w2 in returnFail ''NOT DIR'' w3)
                   else
                     (let w3 = File_rewindDirectory dir w2;
                          w4 = Server_setContentLength CONTENT_LENGTH_UNKNOWN w3;
                          w5 = Server_send 200 ''text/json'' [] w4;
                          w6 = Server_sendContent ''['' w5;
                          w7 = printDirectory_loop dir 0 w6;
                          w8 = Server_sendContent '']'' w7
                      in File_close dir w8))))"

subsection \<open>loadFromSdCard\<close>

text \<open>The operations of the Arduino \<^verbatim>\<open>String\<close> class that the function uses.\<close>

definition endsWith :: "string \<Rightarrow> string \<Rightarrow> bool" where
  "endsWith s suffix' =
     (length suffix' \<le> length s \<and> drop (length s - length suffix') s = suffix')"

text \<open>\<^verbatim>\<open>lastIndexOf\<close>: the index of the last occurrence, or \<open>-1\<close>.\<close>

definition lastIndexOf :: "string \<Rightarrow> string \<Rightarrow> int" where
  "lastIndexOf s pat =
     (if pat = [] \<or> s = [] \<or> length s < length pat then - 1
      else
        (case filter (\<lambda>i. take (length pat) (drop i s) = pat)
                (rev [0..<Suc (length s - length pat)]) of
           [] \<Rightarrow> - 1
         | i # _ \<Rightarrow> int i))"

text \<open>
  \<^verbatim>\<open>substring(left, right)\<close> takes unsigned indices: it swaps them when \<open>left > right\<close>,
  returns the empty string when \<open>left\<close> is past the end and clips \<open>right\<close> to the length.
  An \<^verbatim>\<open>int\<close> argument is converted to \<^verbatim>\<open>unsigned int\<close> (32 bits) first.
\<close>

definition to_unsigned :: "int \<Rightarrow> nat" where
  "to_unsigned i = nat (i mod 2 ^ 32)"

definition substring :: "string \<Rightarrow> nat \<Rightarrow> nat \<Rightarrow> string" where
  "substring s left right =
     (let (l, r) = (if left > right then (right, left) else (left, right))
      in if l \<ge> length s then [] else take (min r (length s) - l) (drop l s))"

text \<open>
  Lines 71 to 98 of \<^verbatim>\<open>loadFromSdCard\<close>: from the requested path to the path to open and
  the content type, before the card is touched.
\<close>

definition loadFromSdCard_resolve :: "string \<Rightarrow> string \<times> string" where
  "loadFromSdCard_resolve path0 =
     (let dataType = ''text/plain'';
          path = (if endsWith path0 ''/'' then path0 @ ''index.htm'' else path0)
      in if endsWith path ''.src''
           then (substring path 0 (to_unsigned (lastIndexOf path ''.'')), dataType)
         else if endsWith path ''.htm'' then (path, ''text/html'')
         else if endsWith path ''.css'' then (path, ''text/css'')
         else if endsWith path ''.js'' then (path, ''application/javascript'')
         else if endsWith path ''.png'' then (path, ''image/png'')
         else if endsWith path ''.gif'' then (path, ''image/gif'')
         else if endsWith path ''.jpg'' then (path, ''image/jpeg'')
         else if endsWith path ''.ico'' then (path, ''image/x-icon'')
         else if endsWith path ''.xml'' then (path, ''text/xml'')
         else if endsWith path ''.pdf'' then (path, ''application/pdf'')
         else if endsWith path ''.zip'' then (path, ''application/zip'')
         else (path, dataType))"

text \<open>
  Lines 100 to 120: open, fall back to the directory's index, stream, close. The local
  \<^verbatim>\<open>File dataFile\<close> is assigned over at line 104, after the right-hand side has opened the
  index, and its scope ends at each \<^verbatim>\<open>return\<close>.
\<close>

definition loadFromSdCard :: "card \<Rightarrow> request \<Rightarrow> string \<Rightarrow> world \<Rightarrow> bool \<times> world" where
  "loadFromSdCard sd req path0 w =
     (case loadFromSdCard_resolve path0 of
        (path, dataType) \<Rightarrow>
          (case SD_open sd path w of
             (dataFile, w1) \<Rightarrow>
               (let (dataType, dataFile, w2) =
                      (if File_isDirectory dataFile w1
                       then (case SD_open sd (path @ ''/index.htm'') w1 of
                               (f, w') \<Rightarrow> (''text/html'', f, File_release dataFile w'))
                       else (dataType, dataFile, w1))
                in if dataFile = None then (False, File_release dataFile w2)
                   else
                     (let dataType =
                            (if hasArg req ''download'' then ''application/octet-stream''
                             else dataType)
                      in case Server_streamFile req dataFile dataType w2 of
                           (sent, w3) \<Rightarrow>
                             (let w4 =
                                    (if sent \<noteq> File_size dataFile w3
                                     then Serial_println ''Sent less data than expected!'' w3
                                     else w3);
                                  w5 = File_close dataFile w4
                              in (True, File_release dataFile w5))))))"

subsection \<open>handleNotFound\<close>

text \<open>
  The loop over the arguments counts in a \<^verbatim>\<open>uint8_t\<close> and compares it, promoted to
  \<^verbatim>\<open>int\<close>, with \<^verbatim>\<open>server.args()\<close>. The counter wraps at 256, so the loop need not end:
  not returning is the value \<open>None\<close>.
\<close>

partial_function (option) handleNotFound_loop :: "request \<Rightarrow> uint8_t \<Rightarrow> string \<Rightarrow> string option" where
  "handleNotFound_loop req i message =
     (if uint i < int (length (args req))
      then handleNotFound_loop req (i + 1)
             (message @ ('' NAME:'' @ argName req (unat i) @ LF @ '' VALUE:''
                @ arg_at req (unat i) @ LF))
      else Some message)"

declare handleNotFound_loop.simps [code]

definition handleNotFound :: "card \<Rightarrow> request \<Rightarrow> world \<Rightarrow> world option" where
  "handleNotFound sd req w =
     (case (if hasSD w then loadFromSdCard sd req (uri req) w else (False, w)) of
        (served, w1) \<Rightarrow>
          if served then Some w1
          else
            (let message = [];
                 message = (if \<not> hasSD w1 then ''SDCARD Not Detected'' @ LF @ LF else message);
                 message = message @ ''URI: '';
                 message = message @ uri req;
                 message = message @ LF @ ''Method: '';
                 message = message @ (if req_method req = HTTP_GET then ''GET'' else ''POST'');
                 message = message @ LF @ ''Arguments: '';
                 message = message @ decimal (length (args req));
                 message = message @ LF
             in case handleNotFound_loop req 0 message of
                  None \<Rightarrow> None
                | Some message \<Rightarrow>
                    Some (Serial_print message (Server_send 404 ''text/plain'' message w1))))"

subsection \<open>setup and loop\<close>

text \<open>
  What \<^verbatim>\<open>setup\<close> finds when the board starts: whether the WiFi is connected at the
  \<open>k\<close>-th poll, the address it was given, and whether the MDNS responder and the card start.
\<close>

record board =
  wifi_connected :: "nat \<Rightarrow> bool"
  localIP :: string
  mdns_begin :: bool
  sd_begin :: bool

definition ssid :: string where
  "ssid = ''wifi-SSID''"

definition host :: string where
  "host = ''esp32sd''"

text \<open>
  \<^verbatim>\<open>while (WiFi.status() != WL_CONNECTED && i++ < 20) delay(500);\<close> from the counter \<open>i\<close>;
  the result is the counter after the loop.
\<close>

function wifi_wait :: "board \<Rightarrow> nat \<Rightarrow> nat" where
  "wifi_wait b i =
     (if \<not> wifi_connected b i
      then (if i < 20 then wifi_wait b (i + 1) else i + 1)
      else i)"
  by pat_completeness (simp only: prod.inject)
termination
  by (relation "measure (\<lambda>(b, i). 20 - i)") simp_all

declare wifi_wait.simps [simp del]

text \<open>
  \<^verbatim>\<open>setup\<close>. When the WiFi never connects it spins in \<^verbatim>\<open>while (1)\<close> and does not return:
  the value \<open>None\<close>. The handlers are registered with the server, the server begins, and
  only then the card is started and \<open>hasSD\<close> written.
\<close>

definition setup' :: "board \<Rightarrow> world \<Rightarrow> world option" where
  "setup' b w =
     (let w1 = Serial_print LF w;
          w2 = Serial_print ''Connecting to '' w1;
          w3 = Serial_println ssid w2;
          i = wifi_wait b 0
      in if i = 21 then None
         else
           (let w4 = Serial_print ''Connected! IP address: '' w3;
                w5 = Serial_println (localIP b) w4;
                w6 = (if mdns_begin b
                      then Serial_println ''.local''
                             (Serial_print host
                               (Serial_print ''You can now connect to http://''
                                 (Serial_println ''MDNS responder started'' w5)))
                      else w5);
                w7 = emit Ev_server_begin w6;
                w8 = Serial_println ''HTTP server started'' w7;
                w9 = emit (Ev_SD_begin (sd_begin b)) w8
            in if sd_begin b
               then Some (emit (Ev_write_hasSD True)
                            ((Serial_println ''SD Card initialized.'' w9)\<lparr>hasSD := True\<rparr>))
               else Some w9))"

text \<open>
  Modelled from the spec: the request router of the web server library, which is not part
  of the repository. \<^verbatim>\<open>setup\<close> registers \<^verbatim>\<open>printDirectory\<close> for GET /list, \<^verbatim>\<open>streamRaw\<close>
  for GET /raw and \<^verbatim>\<open>handleNotFound\<close> for everything else; \<^verbatim>\<open>server.handleClient()\<close>
  starts a fresh response and dispatches one request.
\<close>

definition handleClient :: "card \<Rightarrow> request \<Rightarrow> world \<Rightarrow> world option" where
  "handleClient sd req w =
     (let w0 = w\<lparr>contentLength := CONTENT_LENGTH_NOT_SET, resp_code := None,
                  resp_type := [], resp_body := []\<rparr>
      in if uri req = ''/list'' \<and> req_method req = HTTP_GET then Some (printDirectory sd req w0)
         else if uri req = ''/raw'' \<and> req_method req = HTTP_GET then Some (streamRaw sd w0)
         else handleNotFound sd req w0)"

text \<open>\<^verbatim>\<open>loop\<close> run once for each request of a list, in order.\<close>

fun loop :: "card \<Rightarrow> request list \<Rightarrow> world \<Rightarrow> world option" where
  "loop sd [] w = Some w"
| "loop sd (req # reqs) w =
     (case handleClient sd req w of None \<Rightarrow> None | Some w' \<Rightarrow> loop sd reqs w')"

text \<open>The state before \<^verbatim>\<open>setup\<close>: the static initialiser of \<open>hasSD\<close> is \<open>false\<close>.\<close>

definition world0 :: world where
  "world0 = \<lparr>hasSD = False, open_files = [], contentLength = CONTENT_LENGTH_NOT_SET,
     resp_code = None, resp_type = [], resp_body = [], serial = [], trace = []\<rparr>"


section \<open>Inputs for the examples\<close>

definition demo_files :: "string \<Rightarrow> node option" where
  "demo_files = map_of
     [(''/'', Directory [(''/docs'', Directory [(''/docs/index.htm'', RegFile ''<p>docs</p>'')]),
                        (''/a.txt'', RegFile ''hello''),
                        (''/b.htm'', RegFile ''<b>'')]),
      (''/docs'', Directory [(''/docs/index.htm'', RegFile ''<p>docs</p>'')]),
      (''/docs/index.htm'', RegFile ''<p>docs</p>''),
      (''/empty'', Directory []),
      (''/a.txt'', RegFile ''hello''),
      (''/b.htm'', RegFile ''<b>'')]"

text \<open>A card of four sectors of four bytes whose sector 2 cannot be read.\<close>

definition demo_card :: card where
  "demo_card = \<lparr>numSectors = 4, sectorSize = 4, readable = (\<lambda>i. i \<noteq> 2),
     sectorByte = (\<lambda>i j. of_nat (16 * i + j + 65)),
     failResidue = (\<lambda>i buf. [1, 2] @ drop 2 buf), files = demo_files\<rparr>"

text \<open>A card of 4 GiB: 8388608 sectors of 512 bytes, all readable.\<close>

definition card_4GiB :: card where
  "card_4GiB = \<lparr>numSectors = 8388608, sectorSize = 512, readable = (\<lambda>i. True),
     sectorByte = (\<lambda>i j. 0), failResidue = (\<lambda>i buf. buf), files = (\<lambda>p. None)\<rparr>"

definition get :: "string \<Rightarrow> (string \<times> string) list \<Rightarrow> request" where
  "get u a = \<lparr>uri = u, req_method = HTTP_GET, args = a, client_limit = None\<rparr>"

section \<open>The raw image (streamRaw)\<close>

text \<open>
  What one sector contributes: to the body its bytes or the marker block, to the serial log
  a line when it could not be read, to the trace one read and one write.
\<close>

definition sector_out :: "card \<Rightarrow> nat \<Rightarrow> string" where
  "sector_out sd i =
     (if readable sd i then map as_char (sectorContent sd i)
      else replicate (unat (sectorSize sd)) (as_char DAMAGEDSECTOR))"

definition sector_log :: "card \<Rightarrow> nat \<Rightarrow> string" where
  "sector_log sd i =
     (if readable sd i then [] else ''Error reading sector '' @ decimal i @ CRLF)"

definition sector_events :: "card \<Rightarrow> nat \<Rightarrow> event list" where
  "sector_events sd i = [Ev_readRAW i (readable sd i), Ev_sendContent (sector_out sd i)]"

text \<open>The buffer after the iteration for sector \<open>i\<close>.\<close>

definition next_data :: "card \<Rightarrow> uint8_t list \<Rightarrow> nat \<Rightarrow> uint8_t list" where
  "next_data sd data i =
     (if readable sd i then sectorContent sd i
      else memset (failResidue sd i data) DAMAGEDSECTOR (unat (sectorSize sd)))"

text \<open>The body bytes the handler writes: what it appends to the response.\<close>

definition raw_stream :: "card \<Rightarrow> world \<Rightarrow> string" where
  "raw_stream sd w = drop (length (resp_body w)) (resp_body (streamRaw sd w))"

lemma length_sectorContent: "length (sectorContent sd i) = unat (sectorSize sd)"
  by (simp add: sectorContent_def)

lemma length_sector_out: "length (sector_out sd i) = unat (sectorSize sd)"
  by (simp add: sector_out_def length_sectorContent)

lemma as_char_DAMAGEDSECTOR: "as_char DAMAGEDSECTOR = CHR 0xE5"
  unfolding as_char_def DAMAGEDSECTOR_def by code_simp

text \<open>One iteration of the loop.\<close>

lemma streamRaw_loop_step:
  assumes "sector < sectors"
  shows "streamRaw_loop sd sectors (sectorSize sd) data sector w =
     streamRaw_loop sd sectors (sectorSize sd) (next_data sd data (unat sector)) (sector + 1)
        (w\<lparr>serial := serial w @ sector_log sd (unat sector),
            resp_body := resp_body w @ sector_out sd (unat sector),
            trace := trace w @ sector_events sd (unat sector)\<rparr>)"
proof (cases "readable sd (unat sector)")
  case True
  then show ?thesis
    using assms
    by (subst streamRaw_loop.simps)
       (simp add: SD_readRAW_def emit_def Server_sendContent_P_def Server_sendContent_def
          length_sectorContent next_data_def sector_out_def sector_log_def sector_events_def)
next
  case False
  then show ?thesis
    using assms
    by (subst streamRaw_loop.simps)
       (simp add: SD_readRAW_def emit_def Server_sendContent_P_def Server_sendContent_def
          Serial_println_def Serial_print_def memset_def
          next_data_def sector_out_def sector_log_def sector_events_def)
qed

text \<open>The whole loop, by induction on the number of sectors left.\<close>

lemma streamRaw_loop_world:
  "sector \<le> sectors \<Longrightarrow>
   streamRaw_loop sd sectors (sectorSize sd) data sector w =
     w\<lparr>serial := serial w @ concat (map (sector_log sd) [unat sector..<unat sectors]),
       resp_body := resp_body w @ concat (map (sector_out sd) [unat sector..<unat sectors]),
       trace := trace w @ concat (map (sector_events sd) [unat sector..<unat sectors])\<rparr>"
proof (induction "unat sectors - unat sector" arbitrary: sector data w)
  case 0
  then have "sector = sectors"
    by (simp add: word_le_nat_alt word_unat_eq_iff)
  then show ?case by (subst streamRaw_loop.simps) simp
next
  case (Suc k)
  then have lt: "sector < sectors"
    by (simp add: word_less_nat_alt)
  then have suc: "unat (sector + 1) = Suc (unat sector)"
    by (rule uint64_succ)
  have le: "sector + 1 \<le> sectors" using lt by (rule inc_le)
  have k: "k = unat sectors - unat (sector + 1)" using Suc.hyps(2) suc by simp
  have upt: "[unat sector..<unat sectors] = unat sector # [unat (sector + 1)..<unat sectors]"
    using lt suc by (simp add: upt_conv_Cons word_less_nat_alt)
  show ?case
    by (simp add: streamRaw_loop_step [OF lt] Suc.hyps(1) [OF k le] upt)
qed

lemmas streamRaw_unfold =
  streamRaw_def Let_def streamRaw_loop_world Server_send_def emit_def
  Server_setContentLength_def Serial_print_def Serial_println_def

lemma resp_body_streamRaw:
  "resp_body (streamRaw sd w) =
     resp_body w @ concat (map (sector_out sd) [0..<unat (numSectors sd)])"
  by (simp add: streamRaw_unfold)

lemma trace_streamRaw:
  "trace (streamRaw sd w) =
     trace w @ Ev_send 200 ''application/octet-stream'' []
       # concat (map (sector_events sd) [0..<unat (numSectors sd)])"
  by (simp add: streamRaw_unfold)

lemma contentLength_streamRaw:
  "contentLength (streamRaw sd w) =
     ContentLength (ucast (numSectors sd * ucast (sectorSize sd)))"
  by (simp add: streamRaw_unfold)

lemma resp_code_streamRaw:
  "resp_code (streamRaw sd w) = Some 200 \<and>
   resp_type (streamRaw sd w) = ''application/octet-stream''"
  by (simp add: streamRaw_unfold)

lemma frame_streamRaw:
  "open_files (streamRaw sd w) = open_files w \<and> hasSD (streamRaw sd w) = hasSD w"
  by (simp add: streamRaw_unfold)

lemma concat_blocks_nth:
  assumes "\<And>x. length (f x) = k" and "i < length xs"
  shows "take k (drop (i * k) (concat (map f xs))) = f (xs ! i)"
  using assms(2)
proof (induction xs arbitrary: i)
  case Nil
  then show ?case by simp
next
  case (Cons x xs)
  show ?case
  proof (cases i)
    case 0
    then show ?thesis by (simp add: assms(1))
  next
    case (Suc j)
    with Cons.prems have "j < length xs" by simp
    then have "take k (drop (j * k) (concat (map f xs))) = f (xs ! j)"
      by (rule Cons.IH)
    then show ?thesis using Suc by (simp add: assms(1) add.commute)
  qed
qed

lemma length_concat_blocks:
  assumes "\<And>x. length (f x) = k"
  shows "length (concat (map f xs)) = length xs * k"
  by (induction xs) (simp_all add: assms)

lemma raw_stream_eq:
  "raw_stream sd w = concat (map (sector_out sd) [0..<unat (numSectors sd)])"
  by (simp add: raw_stream_def resp_body_streamRaw)

lemma raw_stream_length:
  "length (raw_stream sd w) = unat (numSectors sd) * unat (sectorSize sd)"
  by (simp add: raw_stream_eq length_concat_blocks [where k = "unat (sectorSize sd)"]
      length_sector_out)

lemma raw_stream_sector:
  assumes "i < unat (numSectors sd)"
  shows "take (unat (sectorSize sd)) (drop (i * unat (sectorSize sd)) (raw_stream sd w)) =
           sector_out sd i"
proof -
  have "take (unat (sectorSize sd))
     (drop (i * unat (sectorSize sd)) (concat (map (sector_out sd) [0..<unat (numSectors sd)]))) =
     sector_out sd ([0..<unat (numSectors sd)] ! i)"
    using assms by (intro concat_blocks_nth) (simp_all add: length_sector_out)
  then show ?thesis
    using assms by (simp add: raw_stream_eq)
qed

text \<open>
  C1. For every card and every sector index \<open>i\<close> below the sector count, the bytes of the raw
  stream from \<open>i * sectorSize\<close> up to \<open>(i + 1) * sectorSize\<close> are the content of sector \<open>i\<close>
  when the read of \<open>i\<close> succeeds and \<open>sectorSize\<close> copies of the byte 0xE5 when it fails,
  whatever the failed read left in the buffer. The range is never a mix and has
  \<open>sectorSize\<close> bytes; the handler reads each sector once, in ascending order, and writes
  its block right after the read.
\<close>

theorem streamRaw_sector_ranges:
  assumes "i < unat (numSectors sd)"
  shows "take (unat (sectorSize sd)) (drop (i * unat (sectorSize sd)) (raw_stream sd w)) =
           (if readable sd i then map as_char (sectorContent sd i)
            else replicate (unat (sectorSize sd)) (CHR 0xE5)) \<and>
         length (take (unat (sectorSize sd))
           (drop (i * unat (sectorSize sd)) (raw_stream sd w))) = unat (sectorSize sd) \<and>
         drop (length (trace w)) (trace (streamRaw sd w)) =
           Ev_send 200 ''application/octet-stream'' []
             # concat (map (\<lambda>k. [Ev_readRAW k (readable sd k),
                                  Ev_sendContent
                                    (if readable sd k then map as_char (sectorContent sd k)
                                     else replicate (unat (sectorSize sd)) (CHR 0xE5))])
                        [0..<unat (numSectors sd)])"
proof -
  have out: "sector_out sd k =
      (if readable sd k then map as_char (sectorContent sd k)
       else replicate (unat (sectorSize sd)) (CHR 0xE5))" for k
    by (simp add: sector_out_def as_char_DAMAGEDSECTOR)
  have "sector_events sd = (\<lambda>k. [Ev_readRAW k (readable sd k),
      Ev_sendContent (if readable sd k then map as_char (sectorContent sd k)
                      else replicate (unat (sectorSize sd)) (CHR 0xE5))])"
    by (rule ext) (simp add: sector_events_def out)
  then have "drop (length (trace w)) (trace (streamRaw sd w)) =
      Ev_send 200 ''application/octet-stream'' []
        # concat (map (\<lambda>k. [Ev_readRAW k (readable sd k),
            Ev_sendContent (if readable sd k then map as_char (sectorContent sd k)
                            else replicate (unat (sectorSize sd)) (CHR 0xE5))])
                   [0..<unat (numSectors sd)])"
    by (simp add: trace_streamRaw)
  moreover have "take (unat (sectorSize sd)) (drop (i * unat (sectorSize sd)) (raw_stream sd w)) =
      (if readable sd i then map as_char (sectorContent sd i)
       else replicate (unat (sectorSize sd)) (CHR 0xE5))"
    using raw_stream_sector [OF assms, of w] by (simp only: out)
  moreover have "length (take (unat (sectorSize sd))
      (drop (i * unat (sectorSize sd)) (raw_stream sd w))) = unat (sectorSize sd)"
    using raw_stream_sector [OF assms, of w] by (simp only: length_sector_out)
  ultimately show ?thesis by (intro conjI)
qed

text \<open>
  On the card of four sectors whose sector 2 fails, with a failed read that leaves two
  foreign bytes in the buffer: sector 3 comes out as its four bytes, sector 2 as four
  marker bytes.
\<close>

theorem streamRaw_sector_ranges_witness:
  "(3 :: nat) < unat (numSectors demo_card) \<and> (2 :: nat) < unat (numSectors demo_card) \<and>
   take 4 (drop 12 (raw_stream demo_card world0)) = ''qrst'' \<and>
   take 4 (drop 8 (raw_stream demo_card world0)) = replicate 4 (CHR 0xE5)"
proof -
  have n: "(3 :: nat) < unat (numSectors demo_card)" "(2 :: nat) < unat (numSectors demo_card)"
    by (simp_all add: demo_card_def)
  have s: "unat (sectorSize demo_card) = 4"
    by (simp add: demo_card_def)
  have r: "readable demo_card 3" "\<not> readable demo_card 2"
    by (simp_all add: demo_card_def)
  have q: "map as_char (sectorContent demo_card 3) = ''qrst''"
    unfolding as_char_def sectorContent_def demo_card_def by code_simp
  have "take 4 (drop 12 (raw_stream demo_card world0)) = ''qrst''"
    using streamRaw_sector_ranges [OF n(1), of world0] by (simp add: s r q)
  moreover have "take 4 (drop 8 (raw_stream demo_card world0)) = replicate 4 (CHR 0xE5)"
    using streamRaw_sector_ranges [OF n(2), of world0] by (simp add: s r)
  ultimately show ?thesis
    using n by simp
qed

text \<open>
  The declared content length is the product of sector count and sector size reduced
  modulo \<open>2^32\<close> (the product is stored in a \<^verbatim>\<open>size_t\<close>); the body has the full product
  of bytes.
\<close>

lemma unat_sdSize:
  "unat (ucast ((a :: uint64_t) * ucast (b :: size_t)) :: size_t) = (unat a * unat b) mod 2 ^ 32"
proof -
  have up: "unat (ucast b :: uint64_t) = unat b"
    by (simp add: unsigned_ucast_eq take_bit_nat_eq_self less_trans [OF unsigned_less])
  have down: "unat (ucast x :: size_t) = unat x mod 2 ^ 32" for x :: uint64_t
    by (simp add: unsigned_ucast_eq take_bit_eq_mod)
  have "unat (a * ucast b) = (unat a * unat b) mod 2 ^ 64"
    by (simp add: unat_word_ariths up)
  then show ?thesis
    by (simp add: down mod_mod_cancel)
qed

lemma streamRaw_declared_length:
  "\<exists>n. contentLength (streamRaw sd w) = ContentLength n \<and>
     unat n = (unat (numSectors sd) * unat (sectorSize sd)) mod 2 ^ 32"
  by (simp add: contentLength_streamRaw unat_sdSize)

text \<open>
  C2 fails on the code. On a card of 4 GiB (8388608 sectors of 512 bytes) the handler
  declares the content length 0 and then writes 4294967296 body bytes: the product
  \<^verbatim>\<open>sectors*sectorSize\<close> is computed in 64 bits and stored in the 32-bit \<^verbatim>\<open>size_t sdSize\<close>.
\<close>

theorem streamRaw_declared_length_wraps:
  "contentLength (streamRaw card_4GiB world0) = ContentLength 0 \<and>
   length (raw_stream card_4GiB world0) = 4294967296 \<and>
   unat (numSectors card_4GiB) * unat (sectorSize card_4GiB) = 4294967296"
  by (simp add: contentLength_streamRaw raw_stream_length card_4GiB_def)

section \<open>The directory listing (printDirectory)\<close>

text \<open>The handles that are open: the indices of the occupied slots of the table.\<close>

definition open_handles :: "world \<Rightarrow> nat list" where
  "open_handles w = filter (\<lambda>h. open_files w ! h \<noteq> None) [0..<length (open_files w)]"

lemma open_handles_snoc_None [simp]:
  "open_handles (w\<lparr>open_files := open_files w @ [None]\<rparr>) = open_handles w"
proof -
  have "filter (\<lambda>h. (open_files w @ [None]) ! h \<noteq> None) [0..<length (open_files w)] =
        filter (\<lambda>h. open_files w ! h \<noteq> None) [0..<length (open_files w)]"
    by (rule filter_cong) (simp_all add: nth_append)
  then show ?thesis
    by (simp add: open_handles_def)
qed

lemma printDirectory_no_dir:
  assumes "\<not> hasArg req ''dir''"
  shows "printDirectory sd req w =
     w\<lparr>resp_code := Some 500, resp_type := ''text/plain'',
       resp_body := resp_body w @ ''BAD ARGS'' @ CRLF,
       trace := trace w @ [Ev_send 500 ''text/plain'' (''BAD ARGS'' @ CRLF)]\<rparr>"
  using assms by (simp add: printDirectory_def returnFail_def Server_send_def emit_def)

text \<open>
  C7, as amended. For every request to /list without a \<open>dir\<close> argument the handler sends
  status 500 with content type text/plain and the body \<open>BAD ARGS\<close> followed by CR LF; the
  only effect on a collaborator is that one send: no file is looked up, opened or
  enumerated, and the table of open files is unchanged.
\<close>

theorem printDirectory_BAD_ARGS:
  assumes "\<not> hasArg req ''dir''"
  shows "resp_code (printDirectory sd req w) = Some 500 \<and>
         resp_type (printDirectory sd req w) = ''text/plain'' \<and>
         resp_body (printDirectory sd req w) = resp_body w @ ''BAD ARGS'' @ [CHR 0x0D, CHR 0x0A] \<and>
         trace (printDirectory sd req w) =
           trace w @ [Ev_send 500 ''text/plain'' (''BAD ARGS'' @ [CHR 0x0D, CHR 0x0A])] \<and>
         open_files (printDirectory sd req w) = open_files w"
  by (simp add: printDirectory_no_dir [OF assms] CRLF_def)

theorem printDirectory_BAD_ARGS_witness:
  "\<not> hasArg (get ''/list'' [(''x'', ''1'')]) ''dir'' \<and>
   resp_code (printDirectory demo_card (get ''/list'' [(''x'', ''1'')]) world0) = Some 500 \<and>
   resp_body (printDirectory demo_card (get ''/list'' [(''x'', ''1'')]) world0) =
     ''BAD ARGS'' @ [CHR 0x0D, CHR 0x0A] \<and>
   trace (printDirectory demo_card (get ''/list'' [(''x'', ''1'')]) world0) =
     [Ev_send 500 ''text/plain'' (''BAD ARGS'' @ [CHR 0x0D, CHR 0x0A])]"
proof -
  have h: "\<not> hasArg (get ''/list'' [(''x'', ''1'')]) ''dir''"
    by (simp add: hasArg_def get_def)
  show ?thesis
    using h printDirectory_BAD_ARGS [OF h, of demo_card world0] by (simp add: world0_def)
qed

text \<open>
  C7 as stated fails: the body is not the bare text \<open>BAD ARGS\<close>, because \<^verbatim>\<open>returnFail\<close>
  appends CR LF to the message.
\<close>

theorem printDirectory_BAD_ARGS_body_counterexample:
  "\<not> hasArg (get ''/list'' []) ''dir'' \<and>
   resp_body (printDirectory demo_card (get ''/list'' []) world0) \<noteq> ''BAD ARGS''"
proof -
  have h: "\<not> hasArg (get ''/list'' []) ''dir''"
    by (simp add: hasArg_def get_def)
  then show ?thesis
    by (simp add: printDirectory_no_dir world0_def CRLF_def)
qed

lemma printDirectory_not_dir:
  assumes "hasArg req ''dir''" and "files sd (arg req ''dir'') = Some (RegFile c)"
  shows "printDirectory sd req w =
     w\<lparr>open_files := open_files w @ [None],
       resp_code := Some 500, resp_type := ''text/plain'',
       resp_body := resp_body w @ ''NOT DIR'' @ CRLF,
       trace := trace w
         @ (if arg req ''dir'' \<noteq> ''/'' then [Ev_exists (arg req ''dir'')] else [])
         @ [Ev_open (arg req ''dir'') (Some (length (open_files w))),
            Ev_close (length (open_files w)),
            Ev_send 500 ''text/plain'' (''NOT DIR'' @ CRLF)]\<rparr>"
proof (cases "arg req ''dir'' = ''/''")
  case True
  with assms(2) have "files sd ''/'' = Some (RegFile c)"
    by simp
  with assms(1) True show ?thesis
    by (cases w)
       (simp add: printDirectory_def returnFail_def Server_send_def emit_def
          SD_open_def File_isDirectory_def lookup_def File_close_def Let_def)
next
  case False
  with assms show ?thesis
    by (cases w)
       (simp add: printDirectory_def returnFail_def Server_send_def emit_def SD_exists_def
          SD_open_def File_isDirectory_def lookup_def File_close_def Let_def)
qed

text \<open>
  C8. For every request to /list whose \<open>dir\<close> argument names a regular file, the handler
  opens it, closes that handle, and only then sends the error \<open>NOT DIR\<close> (\<^verbatim>\<open>returnFail\<close>:
  status 500, text/plain, the message and CR LF). Nothing else is sent, and the handles
  open afterwards are those open before.
\<close>

theorem printDirectory_NOT_DIR:
  assumes "hasArg req ''dir''" and "files sd (arg req ''dir'') = Some (RegFile c)"
  shows "resp_code (printDirectory sd req w) = Some 500 \<and>
         resp_type (printDirectory sd req w) = ''text/plain'' \<and>
         resp_body (printDirectory sd req w) = resp_body w @ ''NOT DIR'' @ [CHR 0x0D, CHR 0x0A] \<and>
         trace (printDirectory sd req w) =
           trace w
           @ (if arg req ''dir'' \<noteq> ''/'' then [Ev_exists (arg req ''dir'')] else [])
           @ [Ev_open (arg req ''dir'') (Some (length (open_files w))),
              Ev_close (length (open_files w)),
              Ev_send 500 ''text/plain'' (''NOT DIR'' @ [CHR 0x0D, CHR 0x0A])] \<and>
         open_files (printDirectory sd req w) = open_files w @ [None] \<and>
         open_handles (printDirectory sd req w) = open_handles w"
  using open_handles_snoc_None [of w] by (simp add: printDirectory_not_dir [OF assms] CRLF_def open_handles_def)

theorem printDirectory_NOT_DIR_witness:
  "hasArg (get ''/list'' [(''dir'', ''/a.txt'')]) ''dir'' \<and>
   files demo_card (arg (get ''/list'' [(''dir'', ''/a.txt'')]) ''dir'') = Some (RegFile ''hello'') \<and>
   resp_body (printDirectory demo_card (get ''/list'' [(''dir'', ''/a.txt'')]) world0) =
     ''NOT DIR'' @ [CHR 0x0D, CHR 0x0A] \<and>
   trace (printDirectory demo_card (get ''/list'' [(''dir'', ''/a.txt'')]) world0) =
     [Ev_exists ''/a.txt'', Ev_open ''/a.txt'' (Some 0), Ev_close 0,
      Ev_send 500 ''text/plain'' (''NOT DIR'' @ [CHR 0x0D, CHR 0x0A])] \<and>
   open_handles (printDirectory demo_card (get ''/list'' [(''dir'', ''/a.txt'')]) world0) = []"
proof -
  have h: "hasArg (get ''/list'' [(''dir'', ''/a.txt'')]) ''dir''"
    by (simp add: hasArg_def get_def)
  have a: "arg (get ''/list'' [(''dir'', ''/a.txt'')]) ''dir'' = ''/a.txt''"
    by (simp add: arg_def get_def)
  have f: "files demo_card (arg (get ''/list'' [(''dir'', ''/a.txt'')]) ''dir'') = Some (RegFile ''hello'')"
    by (simp add: a demo_card_def demo_files_def)
  show ?thesis
    using h f printDirectory_NOT_DIR [OF h f, of world0]
    by (simp add: a world0_def open_handles_def)
qed

definition entry_json :: "string \<times> node \<Rightarrow> string" where
  "entry_json e =
     ''{\"type\":\"'' @ (if is_dir (snd e) then ''dir'' else ''file'')
       @ ''\",\"name\":\"'' @ fst e @ ''\"}''"

definition piece :: "nat \<Rightarrow> string \<times> node \<Rightarrow> string" where
  "piece cnt e = (if cnt > 0 then '','' else []) @ entry_json e"

fun comma_separated :: "string list \<Rightarrow> string" where
  "comma_separated [] = []"
| "comma_separated [x] = x"
| "comma_separated (x # y # ys) = x @ '','' @ comma_separated (y # ys)"

fun loop_body :: "nat \<Rightarrow> (string \<times> node) list \<Rightarrow> string" where
  "loop_body cnt [] = []"
| "loop_body cnt (x # xs) = piece cnt x @ loop_body (Suc cnt) xs"

fun loop_events :: "nat \<Rightarrow> nat \<Rightarrow> nat \<Rightarrow> (string \<times> node) list \<Rightarrow> event list" where
  "loop_events d h cnt [] = [Ev_openNextFile d None]"
| "loop_events d h cnt (x # xs) =
     [Ev_openNextFile d (Some h), Ev_sendContent (piece cnt x), Ev_close h]
       @ loop_events d (Suc h) (Suc cnt) xs"

lemma printDirectory_loop_end:
  assumes "lookup w (Some d) = Some e" and "drop (of_cursor e) (children (of_node e)) = []"
  shows "printDirectory_loop (Some d) cnt w = emit (Ev_openNextFile d None) w"
  using assms by (subst printDirectory_loop.simps) (simp add: File_openNextFile_def)

lemma printDirectory_loop_step:
  assumes "lookup w (Some d) = Some e"
    and "drop (of_cursor e) (children (of_node e)) = x # xs"
  shows "printDirectory_loop (Some d) cnt w =
     printDirectory_loop (Some d) (Suc cnt)
       (w\<lparr>open_files := (open_files w)[d := Some (e\<lparr>of_cursor := Suc (of_cursor e)\<rparr>)] @ [None],
          resp_body := resp_body w @ piece cnt x,
          trace := trace w @ [Ev_openNextFile d (Some (length (open_files w))),
                              Ev_sendContent (piece cnt x),
                              Ev_close (length (open_files w))]\<rparr>)"
  using assms
  by (cases w; cases x)
     (simp add: printDirectory_loop.simps [of "Some d" cnt] File_openNextFile_def emit_def
        Server_sendContent_def File_close_def File_isDirectory_def File_path_def lookup_def
        piece_def entry_json_def Let_def nth_append list_update_append)

lemma printDirectory_loop_world:
  assumes "lookup w (Some d) = Some e"
    and "drop (of_cursor e) (children (of_node e)) = es"
  shows "printDirectory_loop (Some d) cnt w =
     w\<lparr>open_files :=
         (open_files w)[d := Some (e\<lparr>of_cursor := of_cursor e + length es\<rparr>)]
           @ replicate (length es) None,
       resp_body := resp_body w @ loop_body cnt es,
       trace := trace w @ loop_events d (length (open_files w)) cnt es\<rparr>"
  using assms
proof (induction es arbitrary: w e cnt)
  case Nil
  then have "open_files w ! d = Some e" and "d < length (open_files w)"
    by (simp_all add: lookup_def split: if_splits)
  then have "(open_files w)[d := Some e] = open_files w"
    by (simp add: list_update_same_conv)
  then show ?case
    using Nil by (cases w) (simp add: printDirectory_loop_end emit_def)
next
  case (Cons x xs)
  let ?e' = "e\<lparr>of_cursor := Suc (of_cursor e)\<rparr>"
  let ?w' = "w\<lparr>open_files := (open_files w)[d := Some ?e'] @ [None],
          resp_body := resp_body w @ piece cnt x,
          trace := trace w @ [Ev_openNextFile d (Some (length (open_files w))),
                              Ev_sendContent (piece cnt x),
                              Ev_close (length (open_files w))]\<rparr>"
  from Cons.prems have d: "d < length (open_files w)"
    by (simp add: lookup_def split: if_splits)
  then have l: "lookup ?w' (Some d) = Some ?e'"
    by (simp add: lookup_def nth_append)
  have "drop (Suc (of_cursor e)) (children (of_node e)) =
      tl (drop (of_cursor e) (children (of_node e)))"
    by (simp add: drop_Suc tl_drop)
  then have "drop (Suc (of_cursor e)) (children (of_node e)) = xs"
    using Cons.prems(2) by simp
  then have r: "drop (of_cursor ?e') (children (of_node ?e')) = xs"
    by simp
  have "printDirectory_loop (Some d) cnt w = printDirectory_loop (Some d) (Suc cnt) ?w'"
    using Cons.prems by (rule printDirectory_loop_step)
  also have "\<dots> = ?w'\<lparr>open_files :=
         (open_files ?w')[d := Some (?e'\<lparr>of_cursor := of_cursor ?e' + length xs\<rparr>)]
           @ replicate (length xs) None,
       resp_body := resp_body ?w' @ loop_body (Suc cnt) xs,
       trace := trace ?w' @ loop_events d (length (open_files ?w')) (Suc cnt) xs\<rparr>"
    using l r by (rule Cons.IH)
  also have "\<dots> = w\<lparr>open_files :=
         (open_files w)[d := Some (e\<lparr>of_cursor := of_cursor e + length (x # xs)\<rparr>)]
           @ replicate (length (x # xs)) None,
       resp_body := resp_body w @ loop_body cnt (x # xs),
       trace := trace w @ loop_events d (length (open_files w)) cnt (x # xs)\<rparr>"
    using d by (cases w) (simp add: list_update_append replicate_append_same)
  finally show ?case .
qed


lemma printDirectory_listing:
  assumes "hasArg req ''dir''" and "files sd (arg req ''dir'') = Some (Directory es)"
  shows "printDirectory sd req w =
     w\<lparr>open_files := open_files w @ replicate (Suc (length es)) None,
       contentLength := CONTENT_LENGTH_UNKNOWN,
       resp_code := Some 200, resp_type := ''text/json'',
       resp_body := resp_body w @ ''['' @ loop_body 0 es @ '']'',
       trace := trace w
         @ (if arg req ''dir'' \<noteq> ''/'' then [Ev_exists (arg req ''dir'')] else [])
         @ [Ev_open (arg req ''dir'') (Some (length (open_files w))),
            Ev_rewindDirectory (length (open_files w)),
            Ev_send 200 ''text/json'' [], Ev_sendContent ''['']
         @ loop_events (length (open_files w)) (Suc (length (open_files w))) 0 es
         @ [Ev_sendContent '']'', Ev_close (length (open_files w))]\<rparr>"
proof -
  define path where "path = arg req ''dir''"
  define d where "d = length (open_files w)"
  define e0 where "e0 = \<lparr>of_path = path, of_node = Directory es, of_cursor = 0\<rparr>"
  define w6 where "w6 =
     w\<lparr>open_files := open_files w @ [Some e0],
       contentLength := CONTENT_LENGTH_UNKNOWN,
       resp_code := Some 200, resp_type := ''text/json'',
       resp_body := resp_body w @ ''['',
       trace := trace w
         @ (if path \<noteq> ''/'' then [Ev_exists path] else [])
         @ [Ev_open path (Some d), Ev_rewindDirectory d,
            Ev_send 200 ''text/json'' [], Ev_sendContent ''['']\<rparr>"
  have f: "files sd path = Some (Directory es)"
    using assms(2) by (simp add: path_def)
  have head: "printDirectory sd req w =
      File_close (Some d) (Server_sendContent '']'' (printDirectory_loop (Some d) 0 w6))"
  proof (cases "path = ''/''")
    case True
    with f have "files sd ''/'' = Some (Directory es)" by simp
    with assms(1) True show ?thesis
      unfolding w6_def d_def e0_def
      by (cases w)
         (simp add: printDirectory_def path_def [symmetric] SD_open_def File_isDirectory_def
            lookup_def File_rewindDirectory_def Server_setContentLength_def Server_send_def
            Server_sendContent_def emit_def Let_def)
  next
    case False
    with assms(1) f show ?thesis
      unfolding w6_def d_def e0_def
      by (cases w)
         (simp add: printDirectory_def path_def [symmetric] SD_exists_def SD_open_def
            File_isDirectory_def lookup_def File_rewindDirectory_def
            Server_setContentLength_def Server_send_def Server_sendContent_def emit_def Let_def)
  qed
  have lk: "lookup w6 (Some d) = Some e0"
    by (simp add: w6_def d_def lookup_def)
  have dr: "drop (of_cursor e0) (children (of_node e0)) = es"
    by (simp add: e0_def)
  have len: "length (open_files w6) = Suc d"
    by (simp add: w6_def d_def)
  show ?thesis
    unfolding head printDirectory_loop_world [OF lk dr, of 0] len
    unfolding w6_def d_def path_def
    by (cases w)
       (simp add: File_close_def Server_sendContent_def emit_def list_update_append
          replicate_append_same)
qed

lemma loop_body_comma_separated:
  "loop_body cnt es =
     (if es = [] then [] else (if cnt > 0 then '','' else []) @ comma_separated (map entry_json es))"
proof (induction es arbitrary: cnt)
  case Nil
  show ?case by simp
next
  case (Cons x xs)
  have "loop_body cnt (x # xs) =
      piece cnt x @ (if xs = [] then [] else '','' @ comma_separated (map entry_json xs))"
    by (simp add: Cons.IH [of "Suc cnt"])
  then show ?case
    by (cases xs) (simp_all add: piece_def)
qed

lemma loop_events_enumerate:
  "loop_events d h cnt es =
     concat (map (\<lambda>(k, x). [Ev_openNextFile d (Some (h + k)),
                              Ev_sendContent (piece (cnt + k) x),
                              Ev_close (h + k)]) (enumerate 0 es))
       @ [Ev_openNextFile d None]"
proof (induction es arbitrary: h cnt)
  case Nil
  show ?case by simp
next
  case (Cons x xs)
  have "enumerate (Suc 0) xs = map (\<lambda>(k, x). (Suc k, x)) (enumerate 0 xs)"
    by (simp add: enumerate_Suc_eq prod.case_distrib apfst_def map_prod_def case_prod_beta)
  then show ?case
    by (simp add: Cons.IH comp_def case_prod_beta)
qed

subsection \<open>JSON texts (RFC 8259)\<close>

definition quote :: char where
  "quote = CHR 0x22"

definition backslash :: char where
  "backslash = CHR 0x5C"

definition json_ws :: "string \<Rightarrow> bool" where
  "json_ws s = list_all (\<lambda>c. c \<in> set [CHR 0x20, CHR 0x09, CHR 0x0A, CHR 0x0D]) s"

definition json_digit :: "char \<Rightarrow> bool" where
  "json_digit c = (c \<in> set ''0123456789'')"

definition json_hex :: "char \<Rightarrow> bool" where
  "json_hex c = (c \<in> set ''0123456789abcdefABCDEF'')"

text \<open>
  A JSON text is encoded in UTF-8 (RFC 8259, section 8.1), and a \<open>char\<close> here is one byte
  of it. A code point that may stand unescaped in a string (\<open>%x20-21 / %x23-5B /
  %x5D-10FFFF\<close>) is one byte when it is below \<open>0x80\<close>: no quote, no backslash, no control.
\<close>

definition json_unescaped :: "char \<Rightarrow> bool" where
  "json_unescaped c =
     (c \<noteq> quote \<and> c \<noteq> backslash \<and> (0x20 :: nat) \<le> of_char c \<and> (of_char c :: nat) < 0x80)"

text \<open>
  Any other code point is a sequence of two, three or four bytes (RFC 3629, section 4:
  \<open>UTF8-2\<close>, \<open>UTF8-3\<close>, \<open>UTF8-4\<close>, with \<open>UTF8-tail = %x80-BF\<close>).
\<close>

definition utf8_tail :: "char \<Rightarrow> bool" where
  "utf8_tail c = ((0x80 :: nat) \<le> of_char c \<and> (of_char c :: nat) \<le> 0xBF)"

definition byte_between :: "nat \<Rightarrow> char \<Rightarrow> nat \<Rightarrow> bool" where
  "byte_between lo c hi = (lo \<le> of_char c \<and> (of_char c :: nat) \<le> hi)"

fun utf8_multibyte :: "string \<Rightarrow> bool" where
  "utf8_multibyte [a, b] = (byte_between 0xC2 a 0xDF \<and> utf8_tail b)"
| "utf8_multibyte [a, b, c] =
     ((byte_between 0xE0 a 0xE0 \<and> byte_between 0xA0 b 0xBF
       \<or> byte_between 0xE1 a 0xEC \<and> utf8_tail b
       \<or> byte_between 0xED a 0xED \<and> byte_between 0x80 b 0x9F
       \<or> byte_between 0xEE a 0xEF \<and> utf8_tail b) \<and> utf8_tail c)"
| "utf8_multibyte [a, b, c, d] =
     ((byte_between 0xF0 a 0xF0 \<and> byte_between 0x90 b 0xBF
       \<or> byte_between 0xF1 a 0xF3 \<and> utf8_tail b
       \<or> byte_between 0xF4 a 0xF4 \<and> byte_between 0x80 b 0x8F) \<and> utf8_tail c \<and> utf8_tail d)"
| "utf8_multibyte _ = False"

text \<open>The characters between the quotes of a string.\<close>

inductive json_chars :: "string \<Rightarrow> bool" where
  chars_end: "json_chars []"
| chars_plain: "json_unescaped c \<Longrightarrow> json_chars cs \<Longrightarrow> json_chars (c # cs)"
| chars_utf8: "utf8_multibyte u \<Longrightarrow> json_chars cs \<Longrightarrow> json_chars (u @ cs)"
| chars_escape: "e \<in> set [quote, backslash, CHR ''/'', CHR ''b'', CHR ''f'', CHR ''n'', CHR ''r'', CHR ''t'']
     \<Longrightarrow> json_chars cs \<Longrightarrow> json_chars (backslash # e # cs)"
| chars_unicode: "json_hex h1 \<Longrightarrow> json_hex h2 \<Longrightarrow> json_hex h3 \<Longrightarrow> json_hex h4
     \<Longrightarrow> json_chars cs \<Longrightarrow> json_chars (backslash # CHR ''u'' # h1 # h2 # h3 # h4 # cs)"

definition json_int :: "string \<Rightarrow> bool" where
  "json_int s =
     (s = ''0'' \<or> (\<exists>d ds. s = d # ds \<and> d \<in> set ''123456789'' \<and> list_all json_digit ds))"

definition json_frac :: "string \<Rightarrow> bool" where
  "json_frac s = (s = [] \<or> (\<exists>ds. s = CHR ''.'' # ds \<and> ds \<noteq> [] \<and> list_all json_digit ds))"

definition json_exp :: "string \<Rightarrow> bool" where
  "json_exp s =
     (s = [] \<or>
      (\<exists>e sg ds. s = e # sg @ ds \<and> e \<in> set ''eE'' \<and> sg \<in> set [[], ''+'', ''-'']
         \<and> ds \<noteq> [] \<and> list_all json_digit ds))"

definition json_number :: "string \<Rightarrow> bool" where
  "json_number s =
     (\<exists>m i f x. s = m @ i @ f @ x \<and> m \<in> set [[], ''-''] \<and> json_int i \<and> json_frac f \<and> json_exp x)"

inductive json_value :: "string \<Rightarrow> bool"
  and json_elements :: "string \<Rightarrow> bool"
  and json_members :: "string \<Rightarrow> bool" where
  lit_true: "json_value ''true''"
| lit_false: "json_value ''false''"
| lit_null: "json_value ''null''"
| number: "json_number s \<Longrightarrow> json_value s"
| string: "json_chars cs \<Longrightarrow> json_value (quote # cs @ [quote])"
| empty_array: "json_ws a \<Longrightarrow> json_value (CHR ''['' # a @ '']'')"
| array: "json_elements es \<Longrightarrow> json_value (CHR ''['' # es @ '']'')"
| empty_object: "json_ws a \<Longrightarrow> json_value (CHR ''{'' # a @ ''}'')"
| object: "json_members ms \<Longrightarrow> json_value (CHR ''{'' # ms @ ''}'')"
| element: "json_ws a \<Longrightarrow> json_value v \<Longrightarrow> json_ws b \<Longrightarrow> json_elements (a @ v @ b)"
| elements: "json_ws a \<Longrightarrow> json_value v \<Longrightarrow> json_ws b \<Longrightarrow> json_elements es
     \<Longrightarrow> json_elements (a @ v @ b @ CHR '','' # es)"
| member: "json_ws a \<Longrightarrow> json_chars k \<Longrightarrow> json_ws b \<Longrightarrow> json_ws c \<Longrightarrow> json_value v \<Longrightarrow> json_ws d
     \<Longrightarrow> json_members (a @ quote # k @ quote # b @ CHR '':'' # c @ v @ d)"
| members: "json_ws a \<Longrightarrow> json_chars k \<Longrightarrow> json_ws b \<Longrightarrow> json_ws c \<Longrightarrow> json_value v \<Longrightarrow> json_ws d
     \<Longrightarrow> json_members ms
     \<Longrightarrow> json_members (a @ quote # k @ quote # b @ CHR '':'' # c @ v @ d @ CHR '','' # ms)"

text \<open>A JSON text whose value is an array.\<close>

definition json_array :: "string \<Rightarrow> bool" where
  "json_array s =
     (\<exists>a body b. s = a @ CHR ''['' # body @ CHR '']'' # b \<and> json_ws a \<and> json_ws b
        \<and> (json_ws body \<or> json_elements body))"

text \<open>
  A necessary condition that can be computed: read the text from the left, entering a
  string at a quote and leaving it at the next quote that is not escaped. A JSON text ends
  outside a string.
\<close>

datatype scan_state = Outside | Inside | Escaped

fun scan_step :: "scan_state \<Rightarrow> char \<Rightarrow> scan_state" where
  "scan_step Outside c = (if c = quote then Inside else Outside)"
| "scan_step Inside c = (if c = quote then Outside else if c = backslash then Escaped else Inside)"
| "scan_step Escaped c = Inside"

definition scan :: "scan_state \<Rightarrow> string \<Rightarrow> scan_state" where
  "scan st s = foldl scan_step st s"

text \<open>
  A second one: read the bytes from the left as UTF-8. After the lead byte of a sequence
  the state says which bytes may follow; a byte that may not stand where it is leads to
  \<open>U_bad\<close> for good. A JSON text ends between two code points, in \<open>U_start\<close>.
\<close>

datatype utf8_state =
  U_start | U_tail1 | U_tail2 | U_tail3 | U_E0 | U_ED | U_F0 | U_F4 | U_bad

fun utf8_step :: "utf8_state \<Rightarrow> char \<Rightarrow> utf8_state" where
  "utf8_step U_start c =
     (if (of_char c :: nat) < 0x80 then U_start
      else if byte_between 0xC2 c 0xDF then U_tail1
      else if byte_between 0xE0 c 0xE0 then U_E0
      else if byte_between 0xE1 c 0xEC \<or> byte_between 0xEE c 0xEF then U_tail2
      else if byte_between 0xED c 0xED then U_ED
      else if byte_between 0xF0 c 0xF0 then U_F0
      else if byte_between 0xF1 c 0xF3 then U_tail3
      else if byte_between 0xF4 c 0xF4 then U_F4
      else U_bad)"
| "utf8_step U_tail1 c = (if utf8_tail c then U_start else U_bad)"
| "utf8_step U_tail2 c = (if utf8_tail c then U_tail1 else U_bad)"
| "utf8_step U_tail3 c = (if utf8_tail c then U_tail2 else U_bad)"
| "utf8_step U_E0 c = (if byte_between 0xA0 c 0xBF then U_tail1 else U_bad)"
| "utf8_step U_ED c = (if byte_between 0x80 c 0x9F then U_tail1 else U_bad)"
| "utf8_step U_F0 c = (if byte_between 0x90 c 0xBF then U_tail2 else U_bad)"
| "utf8_step U_F4 c = (if byte_between 0x80 c 0x8F then U_tail2 else U_bad)"
| "utf8_step U_bad c = U_bad"

definition utf8_scan :: "utf8_state \<Rightarrow> string \<Rightarrow> utf8_state" where
  "utf8_scan st s = foldl utf8_step st s"

text \<open>A text of bytes below \<open>0x80\<close> only.\<close>

definition ascii :: "string \<Rightarrow> bool" where
  "ascii s = list_all (\<lambda>c. (of_char c :: nat) < 0x80) s"

lemma scan_simps [simp]:
  "scan st [] = st"
  "scan st (c # cs) = scan (scan_step st c) cs"
  "scan st (a @ b) = scan (scan st a) b"
  by (simp_all add: scan_def)

lemma scan_no_quote: "quote \<notin> set s \<Longrightarrow> scan Outside s = Outside"
  by (induction s) auto

lemma json_ws_no_quote: "json_ws s \<Longrightarrow> quote \<notin> set s"
  unfolding json_ws_def quote_def by (induction s) auto

lemma scan_ws [simp]: "json_ws s \<Longrightarrow> scan Outside s = Outside"
  by (simp add: scan_no_quote json_ws_no_quote)

lemma digits_no_quote: "list_all json_digit ds \<Longrightarrow> quote \<notin> set ds"
  unfolding json_digit_def quote_def by (induction ds) auto

lemma json_int_no_quote: "json_int s \<Longrightarrow> quote \<notin> set s"
  unfolding json_int_def by (auto dest: digits_no_quote simp: quote_def)

lemma json_frac_no_quote: "json_frac s \<Longrightarrow> quote \<notin> set s"
  unfolding json_frac_def by (auto dest: digits_no_quote simp: quote_def)

lemma json_exp_no_quote: "json_exp s \<Longrightarrow> quote \<notin> set s"
  unfolding json_exp_def by (auto dest: digits_no_quote simp: quote_def)

lemma json_number_no_quote:
  assumes "json_number s"
  shows "quote \<notin> set s"
proof -
  from assms obtain m i f x where s: "s = m @ i @ f @ x" and m: "m \<in> set [[], ''-'']"
    and i: "json_int i" and f: "json_frac f" and x: "json_exp x"
    unfolding json_number_def by blast
  have "quote \<notin> set m" using m by (auto simp: quote_def)
  then show ?thesis
    using json_int_no_quote [OF i] json_frac_no_quote [OF f] json_exp_no_quote [OF x]
    by (simp add: s)
qed

lemma scan_hex: "json_hex h \<Longrightarrow> scan_step Inside h = Inside"
  by (auto simp: json_hex_def quote_def backslash_def)

lemma utf8_multibyte_high:
  "utf8_multibyte u \<Longrightarrow> list_all (\<lambda>c. (0x80 :: nat) \<le> of_char c) u"
  by (induction u rule: utf8_multibyte.induct) (auto simp: utf8_tail_def byte_between_def)

lemma scan_high: "list_all (\<lambda>c. (0x80 :: nat) \<le> of_char c) u \<Longrightarrow> scan Inside u = Inside"
  by (induction u) (auto simp: quote_def backslash_def)

lemma scan_chars [simp]: "json_chars cs \<Longrightarrow> scan Inside cs = Inside"
proof (induction rule: json_chars.induct)
  case chars_end
  show ?case by simp
next
  case (chars_plain c cs)
  then show ?case by (simp add: json_unescaped_def)
next
  case (chars_utf8 u cs)
  then show ?case by (simp add: scan_high utf8_multibyte_high)
next
  case (chars_escape e cs)
  then show ?case by (simp add: quote_def backslash_def)
next
  case (chars_unicode h1 h2 h3 h4 cs)
  have "scan_step Inside backslash = Escaped"
    by (simp add: quote_def backslash_def)
  with chars_unicode show ?case
    by (simp only: scan_simps scan_step.simps(3) scan_hex)
qed

lemma scan_grammar:
  "(json_value v \<longrightarrow> scan Outside v = Outside) \<and>
   (json_elements es \<longrightarrow> scan Outside es = Outside) \<and>
   (json_members ms \<longrightarrow> scan Outside ms = Outside)"
proof (induction rule: json_value_json_elements_json_members.induct)
  case lit_true
  show ?case by (simp add: quote_def)
next
  case lit_false
  show ?case by (simp add: quote_def)
next
  case lit_null
  show ?case by (simp add: quote_def)
next
  case (number s)
  then show ?case by (simp add: scan_no_quote json_number_no_quote)
next
  case (string cs)
  then show ?case by simp
next
  case (empty_array a)
  then show ?case by (simp add: quote_def)
next
  case (array es)
  then show ?case by (simp add: quote_def)
next
  case (empty_object a)
  then show ?case by (simp add: quote_def)
next
  case (object ms)
  then show ?case by (simp add: quote_def)
next
  case (element a v b)
  then show ?case by simp
next
  case (elements a v b es)
  then show ?case by (simp add: quote_def)
next
  case (member a k b c v d)
  then show ?case by (simp add: quote_def)
next
  case (members a k b c v d ms)
  then show ?case by (simp add: quote_def)
qed

lemma json_array_balanced:
  assumes "json_array s"
  shows "scan Outside s = Outside"
proof -
  from assms obtain a body b where s: "s = a @ CHR ''['' # body @ CHR '']'' # b"
    and a: "json_ws a" and b: "json_ws b" and body: "json_ws body \<or> json_elements body"
    unfolding json_array_def by blast
  from body have "scan Outside body = Outside"
    using scan_grammar [of "[]" body "[]"] by auto
  then show ?thesis
    using a b by (simp add: s quote_def)
qed


lemma utf8_scan_simps [simp]:
  "utf8_scan st [] = st"
  "utf8_scan st (c # cs) = utf8_scan (utf8_step st c) cs"
  "utf8_scan st (a @ b) = utf8_scan (utf8_scan st a) b"
  by (simp_all add: utf8_scan_def)

lemma ascii_simps [simp]:
  "ascii []"
  "ascii (c # cs) = ((of_char c :: nat) < 0x80 \<and> ascii cs)"
  "ascii (a @ b) = (ascii a \<and> ascii b)"
  by (simp_all add: ascii_def)

lemma utf8_scan_ascii [simp]: "ascii s \<Longrightarrow> utf8_scan U_start s = U_start"
  by (induction s) simp_all

lemma utf8_step_lead:
  "byte_between 0xC2 a 0xDF \<Longrightarrow> utf8_step U_start a = U_tail1"
  "byte_between 0xE0 a 0xE0 \<Longrightarrow> utf8_step U_start a = U_E0"
  "byte_between 0xE1 a 0xEC \<Longrightarrow> utf8_step U_start a = U_tail2"
  "byte_between 0xEE a 0xEF \<Longrightarrow> utf8_step U_start a = U_tail2"
  "byte_between 0xED a 0xED \<Longrightarrow> utf8_step U_start a = U_ED"
  "byte_between 0xF0 a 0xF0 \<Longrightarrow> utf8_step U_start a = U_F0"
  "byte_between 0xF1 a 0xF3 \<Longrightarrow> utf8_step U_start a = U_tail3"
  "byte_between 0xF4 a 0xF4 \<Longrightarrow> utf8_step U_start a = U_F4"
  by (simp_all add: byte_between_def)

lemma utf8_scan_multibyte:
  assumes "utf8_multibyte u"
  shows "utf8_scan U_start u = U_start"
  using assms
proof (induction u rule: utf8_multibyte.induct)
  case (1 a b)
  then show ?case
    by (simp add: utf8_step_lead del: utf8_step.simps(1))
next
  case (2 a b c)
  then show ?case
    by (auto simp: utf8_step_lead simp del: utf8_step.simps(1))
next
  case (3 a b c d)
  then show ?case
    by (auto simp: utf8_step_lead simp del: utf8_step.simps(1))
qed simp_all

lemma json_ws_ascii: "json_ws s \<Longrightarrow> ascii s"
  unfolding json_ws_def by (induction s) auto

lemma digits_ascii: "list_all json_digit ds \<Longrightarrow> ascii ds"
  unfolding json_digit_def by (induction ds) auto

lemma json_int_ascii: "json_int s \<Longrightarrow> ascii s"
  unfolding json_int_def by (auto dest: digits_ascii)

lemma json_frac_ascii: "json_frac s \<Longrightarrow> ascii s"
  unfolding json_frac_def by (auto dest: digits_ascii)

lemma json_exp_ascii: "json_exp s \<Longrightarrow> ascii s"
  unfolding json_exp_def by (auto dest: digits_ascii)

lemma json_number_ascii:
  assumes "json_number s"
  shows "ascii s"
proof -
  from assms obtain m i f x where s: "s = m @ i @ f @ x" and m: "m \<in> set [[], ''-'']"
    and i: "json_int i" and f: "json_frac f" and x: "json_exp x"
    unfolding json_number_def by blast
  have "ascii m" using m by auto
  then show ?thesis
    using json_int_ascii [OF i] json_frac_ascii [OF f] json_exp_ascii [OF x]
    by (simp add: s)
qed

lemma json_hex_ascii: "json_hex h \<Longrightarrow> (of_char h :: nat) < 0x80"
  by (auto simp: json_hex_def)

lemma utf8_scan_chars [simp]: "json_chars cs \<Longrightarrow> utf8_scan U_start cs = U_start"
proof (induction rule: json_chars.induct)
  case chars_end
  show ?case by simp
next
  case (chars_plain c cs)
  then show ?case by (simp add: json_unescaped_def)
next
  case (chars_utf8 u cs)
  then show ?case by (simp add: utf8_scan_multibyte)
next
  case (chars_escape e cs)
  then have "ascii [backslash, e]"
    by (auto simp: quote_def backslash_def)
  then have "utf8_scan U_start ([backslash, e] @ cs) = utf8_scan U_start cs"
    by (simp only: utf8_scan_simps(3) utf8_scan_ascii)
  with chars_escape show ?case by simp
next
  case (chars_unicode h1 h2 h3 h4 cs)
  then have "ascii [backslash, CHR ''u'', h1, h2, h3, h4]"
    by (simp add: json_hex_ascii backslash_def)
  then have "utf8_scan U_start ([backslash, CHR ''u'', h1, h2, h3, h4] @ cs) = utf8_scan U_start cs"
    by (simp only: utf8_scan_simps(3) utf8_scan_ascii)
  with chars_unicode show ?case by simp
qed

lemma utf8_grammar:
  "(json_value v \<longrightarrow> utf8_scan U_start v = U_start) \<and>
   (json_elements es \<longrightarrow> utf8_scan U_start es = U_start) \<and>
   (json_members ms \<longrightarrow> utf8_scan U_start ms = U_start)"
proof (induction rule: json_value_json_elements_json_members.induct)
  case lit_true
  show ?case by simp
next
  case lit_false
  show ?case by simp
next
  case lit_null
  show ?case by simp
next
  case (number s)
  then show ?case by (simp add: json_number_ascii)
next
  case (string cs)
  then show ?case by (simp add: quote_def)
next
  case (empty_array a)
  then show ?case by (simp add: json_ws_ascii)
next
  case (array es)
  then show ?case by simp
next
  case (empty_object a)
  then show ?case by (simp add: json_ws_ascii)
next
  case (object ms)
  then show ?case by simp
next
  case (element a v b)
  then show ?case by (simp add: json_ws_ascii)
next
  case (elements a v b es)
  then show ?case by (simp add: json_ws_ascii)
next
  case (member a k b c v d)
  then show ?case by (simp add: json_ws_ascii quote_def)
next
  case (members a k b c v d ms)
  then show ?case by (simp add: json_ws_ascii quote_def)
qed

lemma json_array_utf8:
  assumes "json_array s"
  shows "utf8_scan U_start s = U_start"
proof -
  from assms obtain a body b where s: "s = a @ CHR ''['' # body @ CHR '']'' # b"
    and a: "json_ws a" and b: "json_ws b" and body: "json_ws body \<or> json_elements body"
    unfolding json_array_def by blast
  from body have "utf8_scan U_start body = U_start"
    using utf8_grammar [of "[]" body "[]"] by (auto simp: json_ws_ascii)
  then show ?thesis
    using a b by (simp add: s json_ws_ascii)
qed

text \<open>
  Two cards for the examples: the root directory of one holds a file whose name has a
  double quote in it, that of the other a file whose name has the single byte \<open>0x82\<close> in
  it (the letter e with an acute accent in the code page 437).
\<close>

definition quote_card :: card where
  "quote_card = \<lparr>numSectors = 0, sectorSize = 512, readable = (\<lambda>i. True),
     sectorByte = (\<lambda>i j. 0), failResidue = (\<lambda>i buf. buf),
     files = map_of [(''/'', Directory [(''/a\"b'', RegFile [])])]\<rparr>"

definition accent_card :: card where
  "accent_card = \<lparr>numSectors = 0, sectorSize = 512, readable = (\<lambda>i. True),
     sectorByte = (\<lambda>i j. 0), failResidue = (\<lambda>i buf. buf),
     files = map_of [(''/'', Directory [(CHR ''/'' # CHR 0x82 # ''.txt'', RegFile [])])]\<rparr>"

lemma json_ws_Nil [simp]: "json_ws []"
  by (simp add: json_ws_def)

lemma json_chars_unescaped: "list_all json_unescaped s \<Longrightarrow> json_chars s"
  by (induction s) (auto intro: json_chars.intros)

lemma json_string_unescaped: "list_all json_unescaped s \<Longrightarrow> json_value (quote # s @ [quote])"
  by (rule json_value_json_elements_json_members.string) (rule json_chars_unescaped)

lemma entry_json_value:
  assumes "list_all json_unescaped (fst e)"
  shows "json_value (entry_json e)"
proof -
  define t where "t = (if is_dir (snd e) then ''dir'' else ''file'')"
  have t: "json_value (quote # t @ [quote])"
    unfolding t_def
    by (rule json_string_unescaped) (simp add: json_unescaped_def quote_def backslash_def)
  have p: "json_value (quote # fst e @ [quote])"
    using assms by (rule json_string_unescaped)
  have k1: "json_chars ''type''" and k2: "json_chars ''name''"
    by (rule json_chars_unescaped, simp add: json_unescaped_def quote_def backslash_def)+
  have "json_members ([] @ quote # ''name'' @ quote # [] @ CHR '':'' # [] @ (quote # fst e @ [quote]) @ [])"
    by (rule member) (simp_all add: k2 p)
  then have "json_members ([] @ quote # ''type'' @ quote # [] @ CHR '':'' # [] @ (quote # t @ [quote]) @ []
      @ CHR '','' # ([] @ quote # ''name'' @ quote # [] @ CHR '':'' # [] @ (quote # fst e @ [quote]) @ []))"
    by (intro members) (simp_all add: k1 t)
  then have "json_value (CHR ''{'' #
      ([] @ quote # ''type'' @ quote # [] @ CHR '':'' # [] @ (quote # t @ [quote]) @ []
      @ CHR '','' # ([] @ quote # ''name'' @ quote # [] @ CHR '':'' # [] @ (quote # fst e @ [quote]) @ []))
      @ ''}'')"
    by (rule object)
  moreover have "entry_json e = CHR ''{'' #
      ([] @ quote # ''type'' @ quote # [] @ CHR '':'' # [] @ (quote # t @ [quote]) @ []
      @ CHR '','' # ([] @ quote # ''name'' @ quote # [] @ CHR '':'' # [] @ (quote # fst e @ [quote]) @ []))
      @ ''}''"
    by (simp add: entry_json_def t_def quote_def)
  ultimately show ?thesis by simp
qed

lemma comma_separated_elements:
  assumes "es \<noteq> []" and "list_all (\<lambda>e. list_all json_unescaped (fst e)) es"
  shows "json_elements (comma_separated (map entry_json es))"
  using assms
proof (induction es)
  case Nil
  then show ?case by simp
next
  case (Cons e es)
  then have v: "json_value (entry_json e)"
    by (simp add: entry_json_value)
  show ?case
  proof (cases es)
    case Nil
    have "json_elements ([] @ entry_json e @ [])"
      by (rule element) (simp_all add: v)
    then show ?thesis using Nil by simp
  next
    case (Cons e' es')
    then have "json_elements (comma_separated (map entry_json es))"
      using Cons.IH Cons.prems by simp
    then have "json_elements ([] @ entry_json e @ [] @ CHR '','' # comma_separated (map entry_json es))"
      by (intro elements) (simp_all add: v)
    then show ?thesis using Cons by simp
  qed
qed

lemma listing_json_array:
  assumes "list_all (\<lambda>e. list_all json_unescaped (fst e)) es"
  shows "json_array (''['' @ comma_separated (map entry_json es) @ '']'')"
proof -
  have "json_ws (comma_separated (map entry_json es)) \<or>
        json_elements (comma_separated (map entry_json es))"
    using assms by (cases "es = []") (simp_all add: comma_separated_elements)
  then have "\<exists>a body b. ''['' @ comma_separated (map entry_json es) @ '']'' =
        a @ CHR ''['' # body @ CHR '']'' # b \<and> json_ws a \<and> json_ws b \<and>
        (json_ws body \<or> json_elements body)"
    by (intro exI [of _ "[]"] exI [of _ "comma_separated (map entry_json es)"]) simp
  then show ?thesis
    by (simp only: json_array_def)
qed

lemma length_comma_separated:
  "length (comma_separated xs) = sum_list (map length xs) + (length xs - 1)"
  by (induction xs rule: comma_separated.induct) simp_all

lemma open_handles_append_Nones:
  "open_handles (w\<lparr>open_files := open_files w @ replicate n None\<rparr>) = open_handles w"
proof (induction n)
  case 0
  show ?case by simp
next
  case (Suc n)
  have "open_handles (w\<lparr>open_files := open_files w @ replicate (Suc n) None\<rparr>) =
      open_handles ((w\<lparr>open_files := open_files w @ replicate n None\<rparr>)
        \<lparr>open_files := open_files (w\<lparr>open_files := open_files w @ replicate n None\<rparr>) @ [None]\<rparr>)"
    by (simp add: replicate_append_same)
  also have "\<dots> = open_handles (w\<lparr>open_files := open_files w @ replicate n None\<rparr>)"
    by (rule open_handles_snoc_None)
  finally show ?case by (simp add: Suc.IH)
qed

text \<open>
  What the listing does for every directory. For every request to /list whose \<open>dir\<close>
  argument names a directory with the children \<open>es\<close> (any number, in the order the
  filesystem enumerates them), the handler answers 200 text/json with unknown content
  length, and the body it writes is one \<open>[\<close>, the entries
  \<open>{"type":"dir"|"file","name":"<path>"}\<close> separated by single commas (one fewer than the
  entries), and one \<open>]\<close>. Each entry is opened, written and closed before the next is
  opened; the directory is closed last, and no handle stays open. When every entry path is
  made of bytes from \<open>0x20\<close> to \<open>0x7F\<close> other than the quote and the backslash, the body is
  a JSON array.
\<close>

lemma printDirectory_listing_entries:
  assumes "hasArg req ''dir''" and "files sd (arg req ''dir'') = Some (Directory es)"
  shows "resp_code (printDirectory sd req w) = Some 200 \<and>
         resp_type (printDirectory sd req w) = ''text/json'' \<and>
         contentLength (printDirectory sd req w) = CONTENT_LENGTH_UNKNOWN \<and>
         resp_body (printDirectory sd req w) =
           resp_body w @ ''['' @ comma_separated (map entry_json es) @ '']'' \<and>
         length (comma_separated (map entry_json es)) =
           sum_list (map length (map entry_json es)) + (length es - 1) \<and>
         drop (length (trace w)) (trace (printDirectory sd req w)) =
           (if arg req ''dir'' \<noteq> ''/'' then [Ev_exists (arg req ''dir'')] else [])
           @ [Ev_open (arg req ''dir'') (Some (length (open_files w))),
              Ev_rewindDirectory (length (open_files w)),
              Ev_send 200 ''text/json'' [], Ev_sendContent ''['']
           @ concat (map (\<lambda>(k, e).
                 [Ev_openNextFile (length (open_files w)) (Some (Suc (length (open_files w)) + k)),
                  Ev_sendContent ((if k > 0 then '','' else []) @ entry_json e),
                  Ev_close (Suc (length (open_files w)) + k)]) (enumerate 0 es))
           @ [Ev_openNextFile (length (open_files w)) None,
              Ev_sendContent '']'', Ev_close (length (open_files w))] \<and>
         open_handles (printDirectory sd req w) = open_handles w \<and>
         (list_all (\<lambda>e. list_all json_unescaped (fst e)) es \<longrightarrow>
            json_array (''['' @ comma_separated (map entry_json es) @ '']''))"
proof -
  note w = printDirectory_listing [OF assms, of w]
  have body: "resp_body (printDirectory sd req w) =
      resp_body w @ ''['' @ comma_separated (map entry_json es) @ '']''"
    by (simp add: w loop_body_comma_separated)
  have len: "length (comma_separated (map entry_json es)) =
      sum_list (map length (map entry_json es)) + (length es - 1)"
    by (simp add: length_comma_separated)
  have tr: "drop (length (trace w)) (trace (printDirectory sd req w)) =
           (if arg req ''dir'' \<noteq> ''/'' then [Ev_exists (arg req ''dir'')] else [])
           @ [Ev_open (arg req ''dir'') (Some (length (open_files w))),
              Ev_rewindDirectory (length (open_files w)),
              Ev_send 200 ''text/json'' [], Ev_sendContent ''['']
           @ concat (map (\<lambda>(k, e).
                 [Ev_openNextFile (length (open_files w)) (Some (Suc (length (open_files w)) + k)),
                  Ev_sendContent ((if k > 0 then '','' else []) @ entry_json e),
                  Ev_close (Suc (length (open_files w)) + k)]) (enumerate 0 es))
           @ [Ev_openNextFile (length (open_files w)) None,
              Ev_sendContent '']'', Ev_close (length (open_files w))]"
    by (simp add: w loop_events_enumerate piece_def)
  have oh: "open_handles (printDirectory sd req w) = open_handles w"
    using open_handles_append_Nones [of w "Suc (length es)"]
    by (simp add: w open_handles_def)
  have js: "list_all (\<lambda>e. list_all json_unescaped (fst e)) es \<longrightarrow>
            json_array (''['' @ comma_separated (map entry_json es) @ '']'')"
    by (rule impI) (rule listing_json_array)
  have hd: "resp_code (printDirectory sd req w) = Some 200"
    "resp_type (printDirectory sd req w) = ''text/json''"
    "contentLength (printDirectory sd req w) = CONTENT_LENGTH_UNKNOWN"
    by (simp_all add: w)
  from hd body len tr oh js show ?thesis
    by (intro conjI)
qed

definition list_root :: request where
  "list_root = get ''/list'' [(''dir'', ''/'')]"

text \<open>The listing of the root directory of the example card.\<close>

lemma printDirectory_listing_entries_example:
  "hasArg list_root ''dir'' \<and>
   files demo_card (arg list_root ''dir'') =
     Some (Directory [(''/docs'', Directory [(''/docs/index.htm'', RegFile ''<p>docs</p>'')]),
                      (''/a.txt'', RegFile ''hello''), (''/b.htm'', RegFile ''<b>'')]) \<and>
   resp_body (printDirectory demo_card list_root world0) =
     ''[{\"type\":\"dir\",\"name\":\"/docs\"},{\"type\":\"file\",\"name\":\"/a.txt\"},{\"type\":\"file\",\"name\":\"/b.htm\"}]'' \<and>
   json_array (resp_body (printDirectory demo_card list_root world0)) \<and>
   drop (length (trace world0)) (trace (printDirectory demo_card list_root world0)) =
     [Ev_open ''/'' (Some 0), Ev_rewindDirectory 0, Ev_send 200 ''text/json'' [],
      Ev_sendContent ''['',
      Ev_openNextFile 0 (Some 1), Ev_sendContent ''{\"type\":\"dir\",\"name\":\"/docs\"}'', Ev_close 1,
      Ev_openNextFile 0 (Some 2), Ev_sendContent '',{\"type\":\"file\",\"name\":\"/a.txt\"}'', Ev_close 2,
      Ev_openNextFile 0 (Some 3), Ev_sendContent '',{\"type\":\"file\",\"name\":\"/b.htm\"}'', Ev_close 3,
      Ev_openNextFile 0 None, Ev_sendContent '']'', Ev_close 0] \<and>
   open_handles (printDirectory demo_card list_root world0) = open_handles world0"
proof -
  let ?es = "[(''/docs'', Directory [(''/docs/index.htm'', RegFile ''<p>docs</p>'')]),
              (''/a.txt'', RegFile ''hello''), (''/b.htm'', RegFile ''<b>'')]"
  have h: "hasArg list_root ''dir''"
    by (simp add: hasArg_def get_def list_root_def)
  have a: "arg list_root ''dir'' = ''/''"
    by (simp add: arg_def get_def list_root_def)
  have f: "files demo_card (arg list_root ''dir'') = Some (Directory ?es)"
    by (simp add: a demo_card_def demo_files_def)
  have p: "list_all (\<lambda>e. list_all json_unescaped (fst e)) ?es"
    by (simp add: json_unescaped_def quote_def backslash_def)
  have c: "comma_separated (map entry_json ?es) =
     ''{\"type\":\"dir\",\"name\":\"/docs\"},{\"type\":\"file\",\"name\":\"/a.txt\"},{\"type\":\"file\",\"name\":\"/b.htm\"}''"
    by (simp add: entry_json_def)
  have w0: "open_files world0 = []" "resp_body world0 = []"
    by (simp_all add: world0_def)
  note t = printDirectory_listing_entries [OF h f, of world0]
  from t have body: "resp_body (printDirectory demo_card list_root world0) =
      resp_body world0 @ ''['' @ comma_separated (map entry_json ?es) @ '']''"
    by blast
  from t p have js: "json_array (''['' @ comma_separated (map entry_json ?es) @ '']'')"
    by blast
  from t have tr: "drop (length (trace world0)) (trace (printDirectory demo_card list_root world0)) =
           (if arg list_root ''dir'' \<noteq> ''/'' then [Ev_exists (arg list_root ''dir'')] else [])
           @ [Ev_open (arg list_root ''dir'') (Some (length (open_files world0))),
              Ev_rewindDirectory (length (open_files world0)),
              Ev_send 200 ''text/json'' [], Ev_sendContent ''['']
           @ concat (map (\<lambda>(k, e).
                 [Ev_openNextFile (length (open_files world0)) (Some (Suc (length (open_files world0)) + k)),
                  Ev_sendContent ((if k > 0 then '','' else []) @ entry_json e),
                  Ev_close (Suc (length (open_files world0)) + k)]) (enumerate 0 ?es))
           @ [Ev_openNextFile (length (open_files world0)) None,
              Ev_sendContent '']'', Ev_close (length (open_files world0))]"
    by blast
  from t have oh: "open_handles (printDirectory demo_card list_root world0) = open_handles world0"
    by blast
  have b: "resp_body (printDirectory demo_card list_root world0) =
     ''[{\"type\":\"dir\",\"name\":\"/docs\"},{\"type\":\"file\",\"name\":\"/a.txt\"},{\"type\":\"file\",\"name\":\"/b.htm\"}]''"
    unfolding body c w0 by simp
  have "json_array (resp_body (printDirectory demo_card list_root world0))"
    using js by (simp add: body w0)
  moreover have "drop (length (trace world0)) (trace (printDirectory demo_card list_root world0)) =
     [Ev_open ''/'' (Some 0), Ev_rewindDirectory 0, Ev_send 200 ''text/json'' [],
      Ev_sendContent ''['',
      Ev_openNextFile 0 (Some 1), Ev_sendContent ''{\"type\":\"dir\",\"name\":\"/docs\"}'', Ev_close 1,
      Ev_openNextFile 0 (Some 2), Ev_sendContent '',{\"type\":\"file\",\"name\":\"/a.txt\"}'', Ev_close 2,
      Ev_openNextFile 0 (Some 3), Ev_sendContent '',{\"type\":\"file\",\"name\":\"/b.htm\"}'', Ev_close 3,
      Ev_openNextFile 0 None, Ev_sendContent '']'', Ev_close 0]"
    unfolding tr by (simp add: a w0 entry_json_def enumerate_eq_zip upt_rec)
  ultimately show ?thesis
    using h f b oh by simp
qed

text \<open>
  C3 fails on the code. The handler answers 200 with the content type text/json and writes
  each entry path between two quotes as it is, without escaping. For a root directory
  holding a file whose path is \<open>/a"b\<close> the body is \<open>[{"type":"file","name":"/a"b"}]\<close>, which
  is not a JSON text: the quote inside the name ends the string. For one holding a file
  whose name has the byte \<open>0x82\<close> the body is not a JSON text either: it is not UTF-8.
\<close>

theorem printDirectory_listing_not_json:
  "hasArg list_root ''dir'' \<and>
   files quote_card (arg list_root ''dir'') = Some (Directory [(''/a\"b'', RegFile [])]) \<and>
   resp_code (printDirectory quote_card list_root world0) = Some 200 \<and>
   resp_type (printDirectory quote_card list_root world0) = ''text/json'' \<and>
   resp_body (printDirectory quote_card list_root world0) =
     ''[{\"type\":\"file\",\"name\":\"/a\"b\"}]'' \<and>
   \<not> json_array (resp_body (printDirectory quote_card list_root world0)) \<and>
   files accent_card (arg list_root ''dir'') =
     Some (Directory [(CHR ''/'' # CHR 0x82 # ''.txt'', RegFile [])]) \<and>
   resp_code (printDirectory accent_card list_root world0) = Some 200 \<and>
   resp_type (printDirectory accent_card list_root world0) = ''text/json'' \<and>
   resp_body (printDirectory accent_card list_root world0) =
     ''[{\"type\":\"file\",\"name\":\"/'' @ CHR 0x82 # ''.txt\"}]'' \<and>
   \<not> json_array (resp_body (printDirectory accent_card list_root world0))"
proof -
  have h: "hasArg list_root ''dir''"
    by (simp add: hasArg_def get_def list_root_def)
  have f: "files quote_card (arg list_root ''dir'') = Some (Directory [(''/a\"b'', RegFile [])])"
    by (simp add: arg_def get_def quote_card_def list_root_def)
  have g: "files accent_card (arg list_root ''dir'') =
      Some (Directory [(CHR ''/'' # CHR 0x82 # ''.txt'', RegFile [])])"
    by (simp add: arg_def get_def accent_card_def list_root_def)
  have b: "resp_body (printDirectory quote_card list_root world0) =
      ''[{\"type\":\"file\",\"name\":\"/a\"b\"}]''"
    by (simp add: printDirectory_listing [OF h f] world0_def piece_def entry_json_def)
  have c: "resp_body (printDirectory accent_card list_root world0) =
      ''[{\"type\":\"file\",\"name\":\"/'' @ CHR 0x82 # ''.txt\"}]''"
    by (simp add: printDirectory_listing [OF h g] world0_def piece_def entry_json_def)
  have "scan Outside ''[{\"type\":\"file\",\"name\":\"/a\"b\"}]'' = Inside"
    by (simp add: quote_def backslash_def)
  then have nb: "\<not> json_array ''[{\"type\":\"file\",\"name\":\"/a\"b\"}]''"
    using json_array_balanced by fastforce
  have "utf8_scan U_start (''[{\"type\":\"file\",\"name\":\"/'' @ CHR 0x82 # ''.txt\"}]'') = U_bad"
    by (simp add: byte_between_def utf8_tail_def)
  then have nc: "\<not> json_array (''[{\"type\":\"file\",\"name\":\"/'' @ CHR 0x82 # ''.txt\"}]'')"
    using json_array_utf8 by fastforce
  have hd: "resp_code (printDirectory quote_card list_root world0) = Some 200"
    "resp_type (printDirectory quote_card list_root world0) = ''text/json''"
    by (simp_all add: printDirectory_listing [OF h f])
  have hd': "resp_code (printDirectory accent_card list_root world0) = Some 200"
    "resp_type (printDirectory accent_card list_root world0) = ''text/json''"
    by (simp_all add: printDirectory_listing [OF h g])
  have nb': "\<not> json_array (resp_body (printDirectory quote_card list_root world0))"
    unfolding b by (rule nb)
  have nc': "\<not> json_array (resp_body (printDirectory accent_card list_root world0))"
    unfolding c by (rule nc)
  from h f hd b nb' g hd' c nc' show ?thesis
    by (intro conjI)
qed

section \<open>Content types (loadFromSdCard, lines 71 to 98)\<close>

text \<open>
  The resolver as the specification words it: the default document for a path that ends
  in a slash, the \<open>.src\<close> rule, then the table looked up at the suffix after the last dot.
\<close>

definition ContentTypeMapping :: "(string \<times> string) list" where
  "ContentTypeMapping =
     [(''htm'', ''text/html''), (''css'', ''text/css''), (''js'', ''application/javascript''),
      (''png'', ''image/png''), (''gif'', ''image/gif''), (''jpg'', ''image/jpeg''),
      (''ico'', ''image/x-icon''), (''xml'', ''text/xml''), (''pdf'', ''application/pdf''),
      (''zip'', ''application/zip'')]"

definition path_suffix :: "string \<Rightarrow> string option" where
  "path_suffix s =
     (if CHR ''.'' \<in> set s then Some (rev (takeWhile (\<lambda>c. c \<noteq> CHR ''.'') (rev s))) else None)"

definition ContentTypeResolver :: "string \<Rightarrow> string \<times> string" where
  "ContentTypeResolver path =
     (let p = (if path \<noteq> [] \<and> last path = CHR ''/'' then path @ ''index.htm'' else path)
      in if path_suffix p = Some ''src'' then (take (length p - 4) p, ''text/plain'')
         else (p, case path_suffix p of
                    None \<Rightarrow> ''text/plain''
                  | Some e \<Rightarrow> (case map_of ContentTypeMapping e of
                                None \<Rightarrow> ''text/plain''
                              | Some m \<Rightarrow> m)))"

lemma endsWith_append: "endsWith s x \<longleftrightarrow> (\<exists>q. s = q @ x)"
proof
  assume "endsWith s x"
  then have "s = take (length s - length x) s @ x"
    by (metis endsWith_def append_take_drop_id)
  then show "\<exists>q. s = q @ x" ..
next
  assume "\<exists>q. s = q @ x"
  then show "endsWith s x"
    by (auto simp: endsWith_def)
qed

lemma endsWith_slash: "endsWith s ''/'' \<longleftrightarrow> s \<noteq> [] \<and> last s = CHR ''/''"
proof
  assume "endsWith s ''/''"
  then show "s \<noteq> [] \<and> last s = CHR ''/''"
    by (auto simp: endsWith_append)
next
  assume "s \<noteq> [] \<and> last s = CHR ''/''"
  then have "s = butlast s @ ''/''"
    by (metis append_butlast_last_id)
  then show "endsWith s ''/''"
    unfolding endsWith_append by blast
qed

lemma path_suffix_append:
  assumes "CHR ''.'' \<notin> set e"
  shows "path_suffix (q @ CHR ''.'' # e) = Some e"
proof -
  have "takeWhile (\<lambda>c. c \<noteq> CHR ''.'') (rev e @ CHR ''.'' # rev q) = rev e"
    using assms by (subst takeWhile_append2) auto
  then show ?thesis
    by (simp add: path_suffix_def)
qed

lemma path_suffix_Some:
  assumes "path_suffix s = Some e"
  shows "\<exists>q. s = q @ CHR ''.'' # e"
proof -
  let ?P = "\<lambda>c. c \<noteq> CHR ''.''"
  from assms have dot: "CHR ''.'' \<in> set (rev s)" and e: "e = rev (takeWhile ?P (rev s))"
    by (auto simp: path_suffix_def split: if_splits)
  from dot have "dropWhile ?P (rev s) \<noteq> []"
    by (auto simp: dropWhile_eq_Nil_conv)
  then obtain r where r: "dropWhile ?P (rev s) = CHR ''.'' # r"
    using hd_dropWhile [of ?P "rev s"] by (cases "dropWhile ?P (rev s)") auto
  have "rev s = takeWhile ?P (rev s) @ dropWhile ?P (rev s)"
    by simp
  then have "rev s = rev e @ CHR ''.'' # r"
    by (simp only: r e rev_rev_ident)
  then have "rev (rev s) = rev (rev e @ CHR ''.'' # r)"
    by simp
  then have "s = rev r @ CHR ''.'' # e"
    by simp
  then show ?thesis ..
qed

lemma endsWith_dot:
  assumes "CHR ''.'' \<notin> set e"
  shows "endsWith s (CHR ''.'' # e) \<longleftrightarrow> path_suffix s = Some e"
  using assms path_suffix_append path_suffix_Some
  unfolding endsWith_append by blast


lemma lastIndexOf_src: "lastIndexOf (q @ ''.src'') ''.'' = int (length q)"
proof -
  have "[0..<length q + 4] = [0..<length q] @ [length q..<length q + 4]"
    by (rule upt_add_eq_append) simp
  moreover have "[length q..<length q + 4] =
      [length q, length q + 1, length q + 2, length q + 3]"
    by (simp add: upt_rec)
  ultimately have "rev [0..<Suc (length (q @ ''.src'') - length ''.'')] =
      [length q + 3, length q + 2, length q + 1, length q] @ rev [0..<length q]"
    by simp
  then show ?thesis
    by (simp add: lastIndexOf_def)
qed

lemma to_unsigned_int: "n < 2 ^ 32 \<Longrightarrow> to_unsigned (int n) = n"
proof -
  assume "n < 2 ^ 32"
  then have "int n < 2 ^ 32"
    by (metis of_nat_less_iff of_nat_numeral of_nat_power)
  then show ?thesis
    by (simp add: to_unsigned_def)
qed

lemma strip_src:
  assumes "endsWith p ''.src''" and "length p < 2 ^ 32"
  shows "substring p 0 (to_unsigned (lastIndexOf p ''.'')) = take (length p - 4) p"
proof -
  from assms(1) obtain q where p: "p = q @ ''.src''"
    unfolding endsWith_append by blast
  with assms(2) have "length q < 2 ^ 32"
    by simp
  then have "to_unsigned (lastIndexOf p ''.'') = length q"
    by (simp add: p lastIndexOf_src to_unsigned_int)
  then show ?thesis
    by (simp add: substring_def p)
qed

lemma resolve_refines:
  assumes "length path < 2 ^ 32"
  shows "loadFromSdCard_resolve path = ContentTypeResolver path"
proof -
  define p where "p = (if path \<noteq> [] \<and> last path = CHR ''/'' then path @ ''index.htm'' else path)"
  have p: "(if endsWith path ''/'' then path @ ''index.htm'' else path) = p"
    by (simp add: p_def endsWith_slash)
  have ew: "endsWith p (CHR ''.'' # e) \<longleftrightarrow> path_suffix p = Some e" if "CHR ''.'' \<notin> set e" for e
    using that by (rule endsWith_dot)
  show ?thesis
  proof (cases "path_suffix p = Some ''src''")
    case True
    then have src: "endsWith p ''.src''"
      by (simp add: ew)
    have "p = path"
    proof (rule ccontr)
      assume "p \<noteq> path"
      then have "p = path @ ''index.htm''"
        by (simp add: p_def split: if_splits)
      then have "path_suffix p = Some ''htm''"
        using path_suffix_append [of "''htm''" "path @ ''index''"] by simp
      with True show False by simp
    qed
    with assms have "length p < 2 ^ 32" by simp
    with src have "substring p 0 (to_unsigned (lastIndexOf p ''.'')) = take (length p - 4) p"
      by (rule strip_src)
    with True src show ?thesis
      by (simp add: loadFromSdCard_resolve_def ContentTypeResolver_def p p_def [symmetric] Let_def)
  next
    case False
    show ?thesis
    proof (cases "path_suffix p")
      case None
      with False show ?thesis
        by (simp add: loadFromSdCard_resolve_def ContentTypeResolver_def p p_def [symmetric]
            Let_def ew)
    next
      case (Some e)
      with False show ?thesis
        by (simp add: loadFromSdCard_resolve_def ContentTypeResolver_def p p_def [symmetric]
            Let_def ew ContentTypeMapping_def)
    qed
  qed
qed


lemma resolve_examples:
  "loadFromSdCard_resolve ''foo.src'' = (''foo'', ''text/plain'')"
  "loadFromSdCard_resolve ''foo.htm'' = (''foo.htm'', ''text/html'')"
  "loadFromSdCard_resolve ''dir/'' = (''dir/index.htm'', ''text/html'')"
  by (simp_all add: loadFromSdCard_resolve_def endsWith_def lastIndexOf_def substring_def
      to_unsigned_def Let_def)

text \<open>
  C4. The content-type step of \<^verbatim>\<open>loadFromSdCard\<close> is a total function from the path to a
  resolved path and a MIME type, and on every path (of a length a 32-bit \<^verbatim>\<open>String\<close> can
  have) it returns what the specification's resolver returns: \<open>index.htm\<close> appended to a
  path ending in a slash; a final \<open>.src\<close> stripped, with text/plain and before any table
  lookup; otherwise the MIME type the fixed, case-sensitive table gives for the suffix
  after the last dot, and text/plain when the suffix is unknown or absent. In particular
  \<open>foo.src\<close> gives \<open>foo\<close> with text/plain, \<open>foo.htm\<close> gives text/html, and \<open>dir/\<close> gives
  \<open>dir/index.htm\<close>.
\<close>

theorem loadFromSdCard_resolve_spec:
  assumes "length path < 2 ^ 32"
  shows "loadFromSdCard_resolve path = ContentTypeResolver path \<and>
         loadFromSdCard_resolve ''foo.src'' = (''foo'', ''text/plain'') \<and>
         loadFromSdCard_resolve ''foo.htm'' = (''foo.htm'', ''text/html'') \<and>
         loadFromSdCard_resolve ''dir/'' = (''dir/index.htm'', ''text/html'')"
  using resolve_refines [OF assms] resolve_examples by simp

theorem loadFromSdCard_resolve_spec_witness:
  "length ''page.htm.src'' < 2 ^ 32 \<and>
   loadFromSdCard_resolve ''page.htm.src'' = (''page.htm'', ''text/plain'') \<and>
   ContentTypeResolver ''page.htm.src'' = (''page.htm'', ''text/plain'') \<and>
   length ''logo.PNG'' < 2 ^ 32 \<and>
   loadFromSdCard_resolve ''logo.PNG'' = (''logo.PNG'', ''text/plain'') \<and>
   ContentTypeResolver ''logo.PNG'' = (''logo.PNG'', ''text/plain'')"
proof -
  have l: "length ''page.htm.src'' < 2 ^ 32" "length ''logo.PNG'' < 2 ^ 32"
    by simp_all
  have "ContentTypeResolver ''page.htm.src'' = (''page.htm'', ''text/plain'')"
    by (simp add: ContentTypeResolver_def path_suffix_def Let_def)
  moreover have "ContentTypeResolver ''logo.PNG'' = (''logo.PNG'', ''text/plain'')"
    by (simp add: ContentTypeResolver_def path_suffix_def ContentTypeMapping_def Let_def)
  ultimately show ?thesis
    using l loadFromSdCard_resolve_spec [OF l(1)] loadFromSdCard_resolve_spec [OF l(2)]
    by simp
qed

section \<open>Static files (loadFromSdCard, lines 100 to 120)\<close>

text \<open>What \<^verbatim>\<open>streamFile\<close> writes of a file's bytes on the connection of the request.\<close>

definition delivered :: "request \<Rightarrow> string \<Rightarrow> string" where
  "delivered req bytes = (case client_limit req of None \<Rightarrow> bytes | Some k \<Rightarrow> take k bytes)"

text \<open>Releasing a handle that is open, and a \<^verbatim>\<open>File\<close> that holds none.\<close>

lemma File_release_closed: "File_release f (File_close f w) = File_close f w"
  by (cases f) (simp_all add: File_release_def File_close_def lookup_def emit_def)

lemma File_release_nothing: "lookup w f = None \<Longrightarrow> File_release f w = w"
  by (cases f) (simp_all add: File_release_def)

lemma File_release_open:
  "lookup w (Some h) = Some e \<Longrightarrow>
   File_release (Some h) w = emit (Ev_release h) (w\<lparr>open_files := (open_files w)[h := None]\<rparr>)"
  by (simp add: File_release_def)

lemma loadFromSdCard_missing:
  assumes "loadFromSdCard_resolve path0 = (p, t)" and "files sd p = None"
  shows "loadFromSdCard sd req path0 w = (False, emit (Ev_open p None) w)"
  using assms
  by (simp add: loadFromSdCard_def SD_open_def File_isDirectory_def File_release_nothing
      lookup_def emit_def)

lemma loadFromSdCard_file:
  assumes "loadFromSdCard_resolve path0 = (p, t)" and "files sd p = Some (RegFile c)"
  shows "loadFromSdCard sd req path0 w =
     (True,
      w\<lparr>open_files := open_files w @ [None],
        contentLength := ContentLength (of_nat (length c)),
        resp_code := Some 200,
        resp_type := (if hasArg req ''download'' then ''application/octet-stream'' else t),
        resp_body := resp_body w @ delivered req c,
        serial := serial w @
          (if length (delivered req c) \<noteq> length c
           then ''Sent less data than expected!'' @ CRLF else []),
        trace := trace w @
          [Ev_open p (Some (length (open_files w))),
           Ev_send 200 (if hasArg req ''download'' then ''application/octet-stream'' else t) [],
           Ev_streamFile (length (delivered req c)),
           Ev_close (length (open_files w))]\<rparr>)"
  using assms
  by (cases w)
     (auto simp: list_update_append loadFromSdCard_def SD_open_def File_isDirectory_def lookup_def emit_def
        Server_streamFile_def Server_setContentLength_def Server_send_def File_size_def
        File_close_def File_release_open File_release_nothing Serial_println_def Serial_print_def delivered_def Let_def
        split: option.split)

lemma loadFromSdCard_dir_missing:
  assumes "loadFromSdCard_resolve path0 = (p, t)" and "files sd p = Some (Directory es)"
    and "files sd (p @ ''/index.htm'') = None"
  shows "loadFromSdCard sd req path0 w =
     (False,
      w\<lparr>open_files := open_files w @ [None],
        trace := trace w @
          [Ev_open p (Some (length (open_files w))), Ev_open (p @ ''/index.htm'') None,
           Ev_release (length (open_files w))]\<rparr>)"
  using assms
  by (cases w)
     (simp add: loadFromSdCard_def SD_open_def File_isDirectory_def File_release_open
        File_release_nothing lookup_def emit_def)

lemma loadFromSdCard_dir_index:
  assumes "loadFromSdCard_resolve path0 = (p, t)" and "files sd p = Some (Directory es)"
    and "files sd (p @ ''/index.htm'') = Some n"
  shows "loadFromSdCard sd req path0 w =
     (True,
      w\<lparr>open_files := open_files w @ [None, None],
        contentLength := ContentLength (of_nat (length (content n))),
        resp_code := Some 200,
        resp_type := (if hasArg req ''download'' then ''application/octet-stream'' else ''text/html''),
        resp_body := resp_body w @ delivered req (content n),
        serial := serial w @
          (if length (delivered req (content n)) \<noteq> length (content n)
           then ''Sent less data than expected!'' @ CRLF else []),
        trace := trace w @
          [Ev_open p (Some (length (open_files w))),
           Ev_open (p @ ''/index.htm'') (Some (Suc (length (open_files w)))),
           Ev_release (length (open_files w)),
           Ev_send 200 (if hasArg req ''download'' then ''application/octet-stream'' else ''text/html'') [],
           Ev_streamFile (length (delivered req (content n))),
           Ev_close (Suc (length (open_files w)))]\<rparr>)"
  using assms
  by (cases w)
     (auto simp: list_update_append loadFromSdCard_def SD_open_def File_isDirectory_def lookup_def emit_def
        Server_streamFile_def Server_setContentLength_def Server_send_def File_size_def
        File_close_def File_release_open File_release_nothing Serial_println_def Serial_print_def delivered_def Let_def nth_append
        split: option.split)


lemma open_handles_snoc_Some:
  "open_handles (w\<lparr>open_files := open_files w @ [Some e]\<rparr>) =
     open_handles w @ [length (open_files w)]"
proof -
  have "filter (\<lambda>h. (open_files w @ [Some e]) ! h \<noteq> None) [0..<length (open_files w)] =
        filter (\<lambda>h. open_files w ! h \<noteq> None) [0..<length (open_files w)]"
    by (rule filter_cong) (simp_all add: nth_append)
  then show ?thesis
    by (simp add: open_handles_def)
qed

lemma open_handles_open_files:
  "open_files w1 = open_files w2 \<Longrightarrow> open_handles w1 = open_handles w2"
  by (simp add: open_handles_def)

text \<open>The handles a stretch of the trace opens, and the handles it closes or releases.\<close>

fun handles_opened :: "event list \<Rightarrow> nat list" where
  "handles_opened [] = []"
| "handles_opened (Ev_open p (Some h) # es) = h # handles_opened es"
| "handles_opened (Ev_openNextFile d (Some h) # es) = h # handles_opened es"
| "handles_opened (_ # es) = handles_opened es"

fun handles_closed :: "event list \<Rightarrow> nat list" where
  "handles_closed [] = []"
| "handles_closed (Ev_close h # es) = h # handles_closed es"
| "handles_closed (Ev_release h # es) = h # handles_closed es"
| "handles_closed (_ # es) = handles_closed es"

definition get_docs :: request where
  "get_docs = get ''/docs'' []"

definition get_empty :: request where
  "get_empty = get ''/empty'' []"

lemma open_handles_snoc_Nones:
  "open_handles (w\<lparr>open_files := open_files w @ [None, None]\<rparr>) = open_handles w"
  using open_handles_append_Nones [of w 2] by (simp add: numeral_2_eq_2)

text \<open>The events of \<^verbatim>\<open>loadFromSdCard\<close> and the table of open files after it, on each path.\<close>

lemma loadFromSdCard_handles:
  "open_handles (snd (loadFromSdCard sd req path0 w)) = open_handles w \<and>
   prefix (trace w) (trace (snd (loadFromSdCard sd req path0 w))) \<and>
   handles_opened (drop (length (trace w)) (trace (snd (loadFromSdCard sd req path0 w)))) =
     (case files sd (fst (loadFromSdCard_resolve path0)) of
        None \<Rightarrow> []
      | Some (RegFile c) \<Rightarrow> [length (open_files w)]
      | Some (Directory es) \<Rightarrow>
          (case files sd (fst (loadFromSdCard_resolve path0) @ ''/index.htm'') of
             None \<Rightarrow> [length (open_files w)]
           | Some n \<Rightarrow> [length (open_files w), Suc (length (open_files w))])) \<and>
   handles_closed (drop (length (trace w)) (trace (snd (loadFromSdCard sd req path0 w)))) =
     handles_opened (drop (length (trace w)) (trace (snd (loadFromSdCard sd req path0 w))))"
proof -
  obtain p t where r: "loadFromSdCard_resolve path0 = (p, t)"
    by (cases "loadFromSdCard_resolve path0")
  show ?thesis
  proof (cases "files sd p")
    case None
    then show ?thesis
      by (simp add: r loadFromSdCard_missing [OF r None] emit_def open_handles_def)
  next
    case (Some n)
    show ?thesis
    proof (cases n)
      case (RegFile c)
      with Some have f: "files sd p = Some (RegFile c)" by simp
      have "open_handles (snd (loadFromSdCard sd req path0 w)) =
          open_handles (w\<lparr>open_files := open_files w @ [None]\<rparr>)"
        by (rule open_handles_open_files) (simp add: loadFromSdCard_file [OF r f])
      then show ?thesis
        by (simp add: r f loadFromSdCard_file [OF r f])
    next
      case (Directory es)
      with Some have f: "files sd p = Some (Directory es)" by simp
      show ?thesis
      proof (cases "files sd (p @ ''/index.htm'')")
        case None
        have "open_handles (snd (loadFromSdCard sd req path0 w)) =
            open_handles (w\<lparr>open_files := open_files w @ [None]\<rparr>)"
          by (rule open_handles_open_files) (simp add: loadFromSdCard_dir_missing [OF r f None])
        then show ?thesis
          by (simp add: r f None loadFromSdCard_dir_missing [OF r f None])
      next
        case (Some n')
        have "open_handles (snd (loadFromSdCard sd req path0 w)) =
            open_handles (w\<lparr>open_files := open_files w @ [None, None]\<rparr>)"
          by (rule open_handles_open_files) (simp add: loadFromSdCard_dir_index [OF r f Some])
        then show ?thesis
          by (simp add: r f Some loadFromSdCard_dir_index [OF r f Some] open_handles_snoc_Nones)
      qed
    qed
  qed
qed

text \<open>
  C5. For every card, request, path and state, every handle \<^verbatim>\<open>loadFromSdCard\<close> opens is
  closed or released before it returns: the handles its events close or release are the
  handles they open, and the handles open after the call are those open before it. That
  holds on every path: the early "not found" return (nothing was opened, or the directory's
  handle was released when the index was looked up), a regular file (closed at line 119),
  and a directory served from its \<open>index.htm\<close> (the directory's handle is released by the
  assignment at line 104, the handle of the index is closed at line 119).
\<close>

theorem loadFromSdCard_closes_every_handle:
  "open_handles (snd (loadFromSdCard sd req path0 w)) = open_handles w \<and>
   prefix (trace w) (trace (snd (loadFromSdCard sd req path0 w))) \<and>
   handles_closed (drop (length (trace w)) (trace (snd (loadFromSdCard sd req path0 w)))) =
     handles_opened (drop (length (trace w)) (trace (snd (loadFromSdCard sd req path0 w))))"
  using loadFromSdCard_handles [of sd req path0 w] by blast

text \<open>
  At a directory with an index (\<open>/docs\<close>) and at one without (\<open>/empty\<close>), on the example
  card.
\<close>

theorem loadFromSdCard_closes_every_handle_witness:
  "fst (loadFromSdCard demo_card get_docs (uri get_docs) world0) \<and>
   trace (snd (loadFromSdCard demo_card get_docs (uri get_docs) world0)) =
     [Ev_open ''/docs'' (Some 0), Ev_open ''/docs/index.htm'' (Some 1), Ev_release 0,
      Ev_send 200 ''text/html'' [], Ev_streamFile 11, Ev_close 1] \<and>
   open_handles (snd (loadFromSdCard demo_card get_docs (uri get_docs) world0)) = [] \<and>
   \<not> fst (loadFromSdCard demo_card get_empty (uri get_empty) world0) \<and>
   trace (snd (loadFromSdCard demo_card get_empty (uri get_empty) world0)) =
     [Ev_open ''/empty'' (Some 0), Ev_open ''/empty/index.htm'' None, Ev_release 0] \<and>
   open_handles (snd (loadFromSdCard demo_card get_empty (uri get_empty) world0)) = []"
proof -
  have r1: "loadFromSdCard_resolve (uri get_docs) = (''/docs'', ''text/plain'')"
    by (simp add: get_docs_def get_def loadFromSdCard_resolve_def endsWith_def)
  have f1: "files demo_card ''/docs'' = Some (Directory [(''/docs/index.htm'', RegFile ''<p>docs</p>'')])"
    by (simp add: demo_card_def demo_files_def)
  have i1: "files demo_card (''/docs'' @ ''/index.htm'') = Some (RegFile ''<p>docs</p>'')"
    by (simp add: demo_card_def demo_files_def)
  have r2: "loadFromSdCard_resolve (uri get_empty) = (''/empty'', ''text/plain'')"
    by (simp add: get_empty_def get_def loadFromSdCard_resolve_def endsWith_def)
  have f2: "files demo_card ''/empty'' = Some (Directory [])"
    by (simp add: demo_card_def demo_files_def)
  have i2: "files demo_card (''/empty'' @ ''/index.htm'') = None"
    by (simp add: demo_card_def demo_files_def)
  have d: "delivered get_docs ''<p>docs</p>'' = ''<p>docs</p>''"
    by (simp add: delivered_def get_docs_def get_def)
  have h: "\<not> hasArg get_docs ''download''"
    by (simp add: hasArg_def get_docs_def get_def)
  have o: "open_handles world0 = []"
    by (simp add: world0_def open_handles_def)
  have "fst (loadFromSdCard demo_card get_docs (uri get_docs) world0)"
    "trace (snd (loadFromSdCard demo_card get_docs (uri get_docs) world0)) =
     [Ev_open ''/docs'' (Some 0), Ev_open ''/docs/index.htm'' (Some 1), Ev_release 0,
      Ev_send 200 ''text/html'' [], Ev_streamFile 11, Ev_close 1]"
    "\<not> fst (loadFromSdCard demo_card get_empty (uri get_empty) world0)"
    "trace (snd (loadFromSdCard demo_card get_empty (uri get_empty) world0)) =
     [Ev_open ''/empty'' (Some 0), Ev_open ''/empty/index.htm'' None, Ev_release 0]"
    unfolding loadFromSdCard_dir_index [OF r1 f1 i1] loadFromSdCard_dir_missing [OF r2 f2 i2]
    by (simp_all add: d h world0_def)
  then show ?thesis
    using loadFromSdCard_closes_every_handle [of demo_card get_docs "uri get_docs" world0]
      loadFromSdCard_closes_every_handle [of demo_card get_empty "uri get_empty" world0] o
    by simp
qed

section \<open>The fallback (handleNotFound)\<close>

text \<open>The two lines the fallback writes for one argument.\<close>

definition arg_lines :: "string \<times> string \<Rightarrow> string" where
  "arg_lines a = '' NAME:'' @ fst a @ LF @ '' VALUE:'' @ snd a @ LF"

text \<open>The device-unavailable notice.\<close>

definition notice :: string where
  "notice = ''SDCARD Not Detected'' @ LF @ LF"

text \<open>The token of a request method.\<close>

fun method_name :: "HTTPMethod \<Rightarrow> string" where
  "method_name HTTP_GET = ''GET''"
| "method_name HTTP_POST = ''POST''"
| "method_name HTTP_PUT = ''PUT''"
| "method_name HTTP_DELETE = ''DELETE''"
| "method_name HTTP_PATCH = ''PATCH''"
| "method_name HTTP_HEAD = ''HEAD''"
| "method_name HTTP_OPTIONS = ''OPTIONS''"

text \<open>A request reaches the fallback when the static-file handler did not serve it.\<close>

definition reaches_fallback :: "card \<Rightarrow> request \<Rightarrow> world \<Rightarrow> bool" where
  "reaches_fallback sd req w =
     (\<not> (hasSD w \<and> fst (loadFromSdCard sd req (uri req) w)))"

lemma uint8_range: "(2 :: nat) ^ LENGTH(8) = 256"
  by simp

lemma uint8_succ:
  fixes i :: uint8_t
  assumes "unat i < 255"
  shows "unat (i + 1) = Suc (unat i)"
proof -
  have "unat (i + 1) = (unat i + unat (1 :: uint8_t)) mod 2 ^ LENGTH(8)"
    by (rule unat_word_ariths(1))
  also have "\<dots> = (unat i + 1) mod 256"
    by (simp only: unat_1 uint8_range)
  also have "\<dots> = unat i + 1"
    using assms by (intro mod_less) linarith
  finally show ?thesis by (simp only: Suc_eq_plus1)
qed

lemma uint_less_length: "uint (i :: uint8_t) < int n \<longleftrightarrow> unat i < n"
  by (simp only: uint_nat of_nat_less_iff)

lemma handleNotFound_loop_terminates:
  assumes "length (args req) < 256" and "unat i \<le> length (args req)"
  shows "handleNotFound_loop req i message =
     Some (message @ concat (map arg_lines (drop (unat i) (args req))))"
  using assms(2)
proof (induction "length (args req) - unat i" arbitrary: i message)
  case 0
  then have "\<not> unat i < length (args req)" and "drop (unat i) (args req) = []"
    by simp_all
  then show ?case
    by (subst handleNotFound_loop.simps) (simp only: uint_less_length if_False append_Nil2 concat.simps list.map)
next
  case (Suc k)
  then have lt: "unat i < length (args req)"
    by simp
  with assms(1) have suc: "unat (i + 1) = Suc (unat i)"
    by (intro uint8_succ) simp
  have k: "k = length (args req) - unat (i + 1)"
    using Suc.hyps(2) suc by simp
  have le: "unat (i + 1) \<le> length (args req)"
    using lt suc by simp
  have d: "drop (unat i) (args req) = args req ! unat i # drop (unat (i + 1)) (args req)"
    using lt suc by (simp add: Cons_nth_drop_Suc)
  show ?case
    by (subst handleNotFound_loop.simps)
       (simp add: uint_less_length lt Suc.hyps(1) [OF k le] d arg_lines_def argName_def arg_at_def)
qed

lemma handleNotFound_loop_Some:
  assumes "handleNotFound_loop req i message = Some r"
  shows "length (args req) < 256"
proof (rule handleNotFound_loop.raw_induct
    [where P = "\<lambda>req i message r. length (args req) < 256", OF _ assms])
  fix loop' :: "request \<Rightarrow> uint8_t \<Rightarrow> string \<Rightarrow> string option"
    and req :: request and i :: uint8_t and message r :: string
  assume IH: "\<And>req i message r. loop' req i message = Some r \<Longrightarrow> length (args req) < 256"
    and step: "(if uint i < int (length (args req))
      then loop' req (i + 1)
            (message @ '' NAME:'' @ argName req (unat i) @ LF @ '' VALUE:''
               @ arg_at req (unat i) @ LF)
      else Some message) = Some r"
  show "length (args req) < 256"
  proof (cases "uint i < int (length (args req))")
    case True
    with step have "loop' req (i + 1)
        (message @ '' NAME:'' @ argName req (unat i) @ LF @ '' VALUE:''
           @ arg_at req (unat i) @ LF) = Some r"
      by simp
    then show ?thesis by (rule IH)
  next
    case False
    then have "length (args req) \<le> unat i"
      by (simp only: uint_less_length not_less)
    moreover have "unat i < 2 ^ LENGTH(8)"
      by (rule unsigned_less)
    ultimately show ?thesis
      by (simp only: uint8_range)
  qed
qed

lemma handleNotFound_loop_None:
  "256 \<le> length (args req) \<Longrightarrow> handleNotFound_loop req i message = None"
  using handleNotFound_loop_Some [of req i message] by (cases "handleNotFound_loop req i message") auto

text \<open>The message of the fallback, from the flag and the request.\<close>

definition not_found_message :: "bool \<Rightarrow> request \<Rightarrow> string" where
  "not_found_message sd_detected req =
     (if sd_detected then [] else notice)
     @ ''URI: '' @ uri req @ LF
     @ ''Method: '' @ (if req_method req = HTTP_GET then ''GET'' else ''POST'') @ LF
     @ ''Arguments: '' @ decimal (length (args req)) @ LF
     @ concat (map arg_lines (args req))"

lemma loadFromSdCard_not_served:
  assumes "\<not> fst (loadFromSdCard sd req path0 w)"
  shows "resp_body (snd (loadFromSdCard sd req path0 w)) = resp_body w \<and>
         hasSD (snd (loadFromSdCard sd req path0 w)) = hasSD w \<and>
         serial (snd (loadFromSdCard sd req path0 w)) = serial w"
proof -
  obtain p t where r: "loadFromSdCard_resolve path0 = (p, t)"
    by (cases "loadFromSdCard_resolve path0")
  show ?thesis
  proof (cases "files sd p")
    case None
    then show ?thesis
      by (simp add: loadFromSdCard_missing [OF r None] emit_def)
  next
    case (Some n)
    show ?thesis
    proof (cases n)
      case (RegFile c)
      with Some have "files sd p = Some (RegFile c)" by simp
      with assms show ?thesis
        by (simp add: loadFromSdCard_file [OF r])
    next
      case (Directory es)
      with Some have f: "files sd p = Some (Directory es)" by simp
      show ?thesis
      proof (cases "files sd (p @ ''/index.htm'')")
        case None
        show ?thesis
          by (simp add: loadFromSdCard_dir_missing [OF r f None])
      next
        case (Some n')
        with assms show ?thesis
          by (simp add: loadFromSdCard_dir_index [OF r f Some])
      qed
    qed
  qed
qed

text \<open>The world in which the fallback composes its answer.\<close>

definition after_lookup :: "card \<Rightarrow> request \<Rightarrow> world \<Rightarrow> world" where
  "after_lookup sd req w = (if hasSD w then snd (loadFromSdCard sd req (uri req) w) else w)"

lemma after_lookup_frame:
  assumes "reaches_fallback sd req w"
  shows "resp_body (after_lookup sd req w) = resp_body w \<and>
         hasSD (after_lookup sd req w) = hasSD w \<and>
         serial (after_lookup sd req w) = serial w"
  using assms loadFromSdCard_not_served [of sd req "uri req" w]
  by (simp add: after_lookup_def reaches_fallback_def)

lemma handleNotFound_unfold:
  assumes "reaches_fallback sd req w"
  shows "handleNotFound sd req w =
     map_option
       (\<lambda>m. Serial_print m (Server_send 404 ''text/plain'' m (after_lookup sd req w)))
       (handleNotFound_loop req 0
          ((if hasSD w then [] else notice)
           @ ''URI: '' @ uri req @ LF
           @ ''Method: '' @ (if req_method req = HTTP_GET then ''GET'' else ''POST'') @ LF
           @ ''Arguments: '' @ decimal (length (args req)) @ LF))"
proof (cases "hasSD w")
  case True
  with assms have n: "\<not> fst (loadFromSdCard sd req (uri req) w)"
    by (simp add: reaches_fallback_def)
  then have "hasSD (snd (loadFromSdCard sd req (uri req) w))"
    using True loadFromSdCard_not_served [OF n] by simp
  with True n show ?thesis
    by (cases "loadFromSdCard sd req (uri req) w")
       (simp add: handleNotFound_def after_lookup_def Let_def notice_def split: option.split)
next
  case False
  then show ?thesis
    by (simp add: handleNotFound_def after_lookup_def Let_def notice_def split: option.split)
qed

lemma handleNotFound_fallback:
  assumes "reaches_fallback sd req w" and "length (args req) < 256"
  shows "handleNotFound sd req w =
     Some (Serial_print (not_found_message (hasSD w) req)
            (Server_send 404 ''text/plain'' (not_found_message (hasSD w) req)
              (after_lookup sd req w)))"
  using assms(2)
  by (simp add: handleNotFound_unfold [OF assms(1)] handleNotFound_loop_terminates
      not_found_message_def)

lemma handleNotFound_returns:
  assumes "reaches_fallback sd req w" and "handleNotFound sd req w = Some w'"
  shows "length (args req) < 256"
proof -
  from assms obtain m where "handleNotFound_loop req 0
          ((if hasSD w then [] else notice)
           @ ''URI: '' @ uri req @ LF
           @ ''Method: '' @ (if req_method req = HTTP_GET then ''GET'' else ''POST'') @ LF
           @ ''Arguments: '' @ decimal (length (args req)) @ LF) = Some m"
    by (auto simp: handleNotFound_unfold)
  then show ?thesis
    by (rule handleNotFound_loop_Some)
qed

lemma handleNotFound_body:
  assumes "reaches_fallback sd req w" and "handleNotFound sd req w = Some w'"
  shows "resp_body w' = resp_body w @ not_found_message (hasSD w) req \<and>
         resp_code w' = Some 404 \<and> resp_type w' = ''text/plain''"
proof -
  have "length (args req) < 256"
    using assms by (rule handleNotFound_returns)
  with assms have "w' = Serial_print (not_found_message (hasSD w) req)
            (Server_send 404 ''text/plain'' (not_found_message (hasSD w) req)
              (after_lookup sd req w))"
    by (simp add: handleNotFound_fallback)
  then show ?thesis
    using after_lookup_frame [OF assms(1)]
    by (simp add: Serial_print_def Server_send_def emit_def)
qed

definition put_x :: request where
  "put_x = \<lparr>uri = ''/x'', req_method = HTTP_PUT, args = [], client_limit = None\<rparr>"

definition get_zz :: request where
  "get_zz = get ''/zz'' [(''x'', ''1''), (''y'', ''2'')]"

definition many_args :: request where
  "many_args = get ''/x'' (replicate 256 (''a'', ''b''))"

lemma not_found_message_eq:
  "not_found_message b req =
     (if b then [] else ''SDCARD Not Detected'' @ LF @ LF)
     @ ''URI: '' @ uri req @ LF
     @ ''Method: '' @ (if req_method req = HTTP_GET then ''GET'' else ''POST'') @ LF
     @ ''Arguments: '' @ decimal (length (args req)) @ LF
     @ concat (map (\<lambda>a. '' NAME:'' @ fst a @ LF @ '' VALUE:'' @ snd a @ LF) (args req))"
proof -
  have "arg_lines = (\<lambda>a. '' NAME:'' @ fst a @ LF @ '' VALUE:'' @ snd a @ LF)"
    by (rule ext) (simp add: arg_lines_def)
  then show ?thesis
    by (simp add: not_found_message_def notice_def)
qed

lemma notice_prefix:
  "prefix (''SDCARD Not Detected'' @ LF @ LF) (not_found_message b req) \<longleftrightarrow> \<not> b"
  by (cases b) (simp_all add: not_found_message_def notice_def)

text \<open>
  C9, as amended. For every request that reaches the fallback with fewer than 256 query
  arguments, the handler returns; the response has status 404 and content type text/plain;
  its body is the device-unavailable notice exactly when the flag \<open>hasSD\<close> is false, then
  the requested path, then the method line, which reads GET for a GET request and POST for
  every other method, then the number of arguments and the name and value of every
  argument in order.
\<close>

theorem handleNotFound_diagnostic:
  assumes "reaches_fallback sd req w" and "length (args req) < 256"
  shows "\<exists>w'. handleNotFound sd req w = Some w' \<and>
           resp_code w' = Some 404 \<and> resp_type w' = ''text/plain'' \<and>
           resp_body w' =
             resp_body w
             @ (if hasSD w then [] else ''SDCARD Not Detected'' @ LF @ LF)
             @ ''URI: '' @ uri req @ LF
             @ ''Method: '' @ (if req_method req = HTTP_GET then ''GET'' else ''POST'') @ LF
             @ ''Arguments: '' @ decimal (length (args req)) @ LF
             @ concat (map (\<lambda>a. '' NAME:'' @ fst a @ LF @ '' VALUE:'' @ snd a @ LF) (args req)) \<and>
           (prefix (''SDCARD Not Detected'' @ LF @ LF)
              (drop (length (resp_body w)) (resp_body w')) \<longleftrightarrow> \<not> hasSD w)"
proof -
  from assms obtain w' where w': "handleNotFound sd req w = Some w'"
    by (simp add: handleNotFound_fallback)
  note b = handleNotFound_body [OF assms(1) w']
  have "prefix (''SDCARD Not Detected'' @ LF @ LF)
      (drop (length (resp_body w)) (resp_body w')) \<longleftrightarrow> \<not> hasSD w"
    using b notice_prefix [of "hasSD w" req] by simp
  with w' b show ?thesis
    by (simp add: not_found_message_eq)
qed

text \<open>
  C10. For every request that reaches the fallback, the body the handler sends names the
  method as GET when the request is a GET and as POST for every other method (POST, PUT,
  DELETE, PATCH, HEAD, OPTIONS). The handler sends a body whenever the request has fewer
  than 256 arguments.
\<close>

theorem handleNotFound_method_line:
  assumes "reaches_fallback sd req w"
  shows "(length (args req) < 256 \<longrightarrow> (\<exists>w'. handleNotFound sd req w = Some w')) \<and>
         (\<forall>w'. handleNotFound sd req w = Some w' \<longrightarrow>
            resp_body w' =
              resp_body w
              @ (if hasSD w then [] else ''SDCARD Not Detected'' @ LF @ LF)
              @ ''URI: '' @ uri req @ LF
              @ ''Method: ''
              @ (case req_method req of
                   HTTP_GET \<Rightarrow> ''GET''
                 | HTTP_POST \<Rightarrow> ''POST''
                 | HTTP_PUT \<Rightarrow> ''POST''
                 | HTTP_DELETE \<Rightarrow> ''POST''
                 | HTTP_PATCH \<Rightarrow> ''POST''
                 | HTTP_HEAD \<Rightarrow> ''POST''
                 | HTTP_OPTIONS \<Rightarrow> ''POST'') @ LF
              @ ''Arguments: '' @ decimal (length (args req)) @ LF
              @ concat (map (\<lambda>a. '' NAME:'' @ fst a @ LF @ '' VALUE:'' @ snd a @ LF) (args req)))"
proof -
  have m: "(case req_method req of
              HTTP_GET \<Rightarrow> ''GET'' | HTTP_POST \<Rightarrow> ''POST'' | HTTP_PUT \<Rightarrow> ''POST''
            | HTTP_DELETE \<Rightarrow> ''POST'' | HTTP_PATCH \<Rightarrow> ''POST'' | HTTP_HEAD \<Rightarrow> ''POST''
            | HTTP_OPTIONS \<Rightarrow> ''POST'') =
           (if req_method req = HTTP_GET then ''GET'' else ''POST'')"
    by (cases "req_method req") simp_all
  have "length (args req) < 256 \<longrightarrow> (\<exists>w'. handleNotFound sd req w = Some w')"
    using assms by (simp add: handleNotFound_fallback)
  moreover have "resp_body w' = resp_body w @ not_found_message (hasSD w) req"
    if "handleNotFound sd req w = Some w'" for w'
    using handleNotFound_body [OF assms that] by simp
  ultimately show ?thesis
    by (simp only: m not_found_message_eq) blast
qed


lemma get_zz_fallback: "reaches_fallback demo_card get_zz (world0\<lparr>hasSD := True\<rparr>)"
proof -
  have r: "loadFromSdCard_resolve (uri get_zz) = (''/zz'', ''text/plain'')"
    by (simp add: get_zz_def get_def loadFromSdCard_resolve_def endsWith_def)
  have f: "files demo_card ''/zz'' = None"
    by (simp add: demo_card_def demo_files_def)
  show ?thesis
    by (simp add: reaches_fallback_def loadFromSdCard_missing [OF r f])
qed

theorem handleNotFound_diagnostic_witness:
  "reaches_fallback demo_card get_zz (world0\<lparr>hasSD := True\<rparr>) \<and>
   length (args get_zz) < 256 \<and>
   (\<exists>w'. handleNotFound demo_card get_zz (world0\<lparr>hasSD := True\<rparr>) = Some w' \<and>
      resp_code w' = Some 404 \<and>
      resp_body w' =
        ''URI: /zz\<newline>Method: GET\<newline>Arguments: 2\<newline> NAME:x\<newline> VALUE:1\<newline> NAME:y\<newline> VALUE:2\<newline>'')"
proof -
  have l: "length (args get_zz) < 256"
    by (simp add: get_zz_def get_def)
  have d: "decimal (length (args get_zz)) = ''2''"
    by (simp add: get_zz_def get_def decimal.simps)
  from handleNotFound_diagnostic [OF get_zz_fallback l]
  obtain w' where w': "handleNotFound demo_card get_zz (world0\<lparr>hasSD := True\<rparr>) = Some w'"
    and c: "resp_code w' = Some 404"
    and b: "resp_body w' =
             resp_body (world0\<lparr>hasSD := True\<rparr>)
             @ (if hasSD (world0\<lparr>hasSD := True\<rparr>) then [] else ''SDCARD Not Detected'' @ LF @ LF)
             @ ''URI: '' @ uri get_zz @ LF
             @ ''Method: '' @ (if req_method get_zz = HTTP_GET then ''GET'' else ''POST'') @ LF
             @ ''Arguments: '' @ decimal (length (args get_zz)) @ LF
             @ concat (map (\<lambda>a. '' NAME:'' @ fst a @ LF @ '' VALUE:'' @ snd a @ LF) (args get_zz))"
    by blast
  from b have "resp_body w' =
      ''URI: /zz\<newline>Method: GET\<newline>Arguments: 2\<newline> NAME:x\<newline> VALUE:1\<newline> NAME:y\<newline> VALUE:2\<newline>''"
    by (simp add: d) (simp add: get_zz_def get_def world0_def LF_def)
  with w' c get_zz_fallback l show ?thesis
    by simp
qed

lemma put_x_fallback: "reaches_fallback demo_card put_x world0"
  by (simp add: reaches_fallback_def world0_def)

theorem handleNotFound_method_line_witness:
  "reaches_fallback demo_card put_x world0 \<and> length (args put_x) < 256 \<and>
   (\<exists>w'. handleNotFound demo_card put_x world0 = Some w' \<and>
      resp_body w' =
        ''SDCARD Not Detected\<newline>\<newline>URI: /x\<newline>Method: POST\<newline>Arguments: 0\<newline>'')"
proof -
  have l: "length (args put_x) < 256"
    by (simp add: put_x_def)
  have d: "decimal (length (args put_x)) = ''0''"
    by (simp add: put_x_def decimal.simps)
  from handleNotFound_method_line [OF put_x_fallback] l
  obtain w' where w': "handleNotFound demo_card put_x world0 = Some w'"
    by blast
  with handleNotFound_method_line [OF put_x_fallback]
  have "resp_body w' =
      resp_body world0
      @ (if hasSD world0 then [] else ''SDCARD Not Detected'' @ LF @ LF)
      @ ''URI: '' @ uri put_x @ LF
      @ ''Method: ''
      @ (case req_method put_x of
           HTTP_GET \<Rightarrow> ''GET'' | HTTP_POST \<Rightarrow> ''POST'' | HTTP_PUT \<Rightarrow> ''POST''
         | HTTP_DELETE \<Rightarrow> ''POST'' | HTTP_PATCH \<Rightarrow> ''POST'' | HTTP_HEAD \<Rightarrow> ''POST''
         | HTTP_OPTIONS \<Rightarrow> ''POST'') @ LF
      @ ''Arguments: '' @ decimal (length (args put_x)) @ LF
      @ concat (map (\<lambda>a. '' NAME:'' @ fst a @ LF @ '' VALUE:'' @ snd a @ LF) (args put_x))"
    by blast
  then have "resp_body w' =
      ''SDCARD Not Detected\<newline>\<newline>URI: /x\<newline>Method: POST\<newline>Arguments: 0\<newline>''"
    by (simp add: d) (simp add: put_x_def world0_def LF_def)
  with w' put_x_fallback l show ?thesis
    by simp
qed

text \<open>
  C9 as stated fails twice. The body for a PUT request does not contain the request's
  method: it says POST. And a request with 256 arguments never gets an answer: the
  \<^verbatim>\<open>uint8_t\<close> counter of the argument loop wraps to 0 before it can reach 256.
\<close>

theorem handleNotFound_method_counterexample:
  "reaches_fallback demo_card put_x world0 \<and>
   map_option resp_body (handleNotFound demo_card put_x world0) =
     Some ''SDCARD Not Detected\<newline>\<newline>URI: /x\<newline>Method: POST\<newline>Arguments: 0\<newline>'' \<and>
   method_name (req_method put_x) = ''PUT'' \<and>
   \<not> sublist (method_name (req_method put_x))
       ''SDCARD Not Detected\<newline>\<newline>URI: /x\<newline>Method: POST\<newline>Arguments: 0\<newline>'' \<and>
   reaches_fallback demo_card many_args world0 \<and>
   handleNotFound demo_card many_args world0 = None"
proof -
  have l: "length (args put_x) < 256"
    by (simp add: put_x_def)
  have d: "decimal (length (args put_x)) = ''0''"
    by (simp add: put_x_def decimal.simps)
  have "not_found_message (hasSD world0) put_x =
      ''SDCARD Not Detected\<newline>\<newline>URI: /x\<newline>Method: POST\<newline>Arguments: 0\<newline>''"
    by (simp add: not_found_message_def d) (simp add: put_x_def world0_def LF_def notice_def)
  moreover have "map_option resp_body (handleNotFound demo_card put_x world0) =
      Some (resp_body world0 @ not_found_message (hasSD world0) put_x)"
    using after_lookup_frame [OF put_x_fallback]
    by (simp add: handleNotFound_fallback [OF put_x_fallback l] Serial_print_def Server_send_def
        emit_def)
  ultimately have b: "map_option resp_body (handleNotFound demo_card put_x world0) =
      Some ''SDCARD Not Detected\<newline>\<newline>URI: /x\<newline>Method: POST\<newline>Arguments: 0\<newline>''"
    by (simp add: world0_def)
  have m: "method_name (req_method put_x) = ''PUT''"
    by (simp add: put_x_def)
  have s: "\<not> sublist ''PUT''
      ''SDCARD Not Detected\<newline>\<newline>URI: /x\<newline>Method: POST\<newline>Arguments: 0\<newline>''"
    by (simp add: sublist_Cons_right)
  have f: "reaches_fallback demo_card many_args world0"
    by (simp add: reaches_fallback_def world0_def)
  have "256 \<le> length (args many_args)"
    by (simp add: many_args_def get_def)
  then have n: "handleNotFound demo_card many_args world0 = None"
    by (simp add: handleNotFound_unfold [OF f] handleNotFound_loop_None)
  from put_x_fallback b m s f n show ?thesis
    by (simp only: m) simp
qed

section \<open>The availability flag (hasSD)\<close>

text \<open>The values written to \<open>hasSD\<close>, in order, as a trace records them.\<close>

fun flag_writes :: "event list \<Rightarrow> bool list" where
  "flag_writes [] = []"
| "flag_writes (Ev_write_hasSD b # es) = b # flag_writes es"
| "flag_writes (_ # es) = flag_writes es"

text \<open>
  A step from \<open>w\<close> to \<open>w'\<close> that leaves the flag alone: its value is the same, and the
  events added to the trace hold no write of it.
\<close>

definition leaves_flag :: "world \<Rightarrow> world \<Rightarrow> bool" where
  "leaves_flag w w' =
     (hasSD w' = hasSD w \<and> prefix (trace w) (trace w') \<and>
      flag_writes (drop (length (trace w)) (trace w')) = [])"

text \<open>Two boards whose WiFi connects at the fourth poll: one with a card that starts, one without.\<close>

definition board_with_card :: board where
  "board_with_card = \<lparr>wifi_connected = (\<lambda>k. 3 \<le> k), localIP = ''192.168.1.50'',
     mdns_begin = True, sd_begin = True\<rparr>"

definition board_without_card :: board where
  "board_without_card = \<lparr>wifi_connected = (\<lambda>k. 3 \<le> k), localIP = ''192.168.1.50'',
     mdns_begin = True, sd_begin = False\<rparr>"

lemma flag_writes_append [simp]: "flag_writes (a @ b) = flag_writes a @ flag_writes b"
  by (induction a rule: flag_writes.induct) simp_all

lemma leaves_flag_iff:
  "leaves_flag w w' =
     (hasSD w' = hasSD w \<and> (\<exists>evs. trace w' = trace w @ evs \<and> flag_writes evs = []))"
  by (auto simp: leaves_flag_def prefix_def)

lemma leaves_flag_refl [simp]: "leaves_flag w w"
  by (simp add: leaves_flag_iff)

lemma leaves_flag_trans: "leaves_flag w w1 \<Longrightarrow> leaves_flag w1 w2 \<Longrightarrow> leaves_flag w w2"
  by (auto simp: leaves_flag_iff)

lemma leaves_flagI:
  "hasSD w' = hasSD w \<Longrightarrow> trace w' = trace w @ evs \<Longrightarrow> flag_writes evs = [] \<Longrightarrow> leaves_flag w w'"
  by (auto simp: leaves_flag_iff)

lemma printDirectory_bad_path:
  assumes "hasArg req ''dir''" and "arg req ''dir'' \<noteq> ''/''" and "files sd (arg req ''dir'') = None"
  shows "printDirectory sd req w =
     w\<lparr>resp_code := Some 500, resp_type := ''text/plain'',
       resp_body := resp_body w @ ''BAD PATH'' @ CRLF,
       trace := trace w @ [Ev_exists (arg req ''dir''),
                           Ev_send 500 ''text/plain'' (''BAD PATH'' @ CRLF)]\<rparr>"
  using assms
  by (cases w)
     (simp add: printDirectory_def returnFail_def Server_send_def emit_def SD_exists_def Let_def)

lemma printDirectory_no_root:
  assumes "hasArg req ''dir''" and "arg req ''dir'' = ''/''" and "files sd ''/'' = None"
  shows "printDirectory sd req w =
     w\<lparr>resp_code := Some 500, resp_type := ''text/plain'',
       resp_body := resp_body w @ ''NOT DIR'' @ CRLF,
       trace := trace w @ [Ev_open ''/'' None,
                           Ev_send 500 ''text/plain'' (''NOT DIR'' @ CRLF)]\<rparr>"
  using assms
  by (cases w)
     (simp add: printDirectory_def returnFail_def Server_send_def emit_def SD_open_def
        File_isDirectory_def lookup_def File_close_def Let_def)

text \<open>The five ways through \<^verbatim>\<open>printDirectory\<close>.\<close>

lemma printDirectory_cases:
  obtains (no_dir) "\<not> hasArg req ''dir''"
  | (bad_path) "hasArg req ''dir''" "arg req ''dir'' \<noteq> ''/''" "files sd (arg req ''dir'') = None"
  | (no_root) "hasArg req ''dir''" "arg req ''dir'' = ''/''" "files sd ''/'' = None"
  | (not_dir) c where "hasArg req ''dir''" "files sd (arg req ''dir'') = Some (RegFile c)"
  | (listing) es where "hasArg req ''dir''" "files sd (arg req ''dir'') = Some (Directory es)"
proof (cases "hasArg req ''dir''")
  case False
  then show ?thesis by (rule no_dir)
next
  case True
  show ?thesis
  proof (cases "files sd (arg req ''dir'')")
    case None
    show ?thesis
    proof (cases "arg req ''dir'' = ''/''")
      case eq: True
      with None have "files sd ''/'' = None" by simp
      with True eq show ?thesis by (rule no_root)
    next
      case False
      with True show ?thesis using None by (rule bad_path)
    qed
  next
    case (Some n)
    show ?thesis
    proof (cases n)
      case (RegFile c)
      with Some True show ?thesis by (intro not_dir [of c]) simp_all
    next
      case (Directory es)
      with Some True show ?thesis by (intro listing [of es]) simp_all
    qed
  qed
qed

lemma printDirectory_ignores_hasSD:
  "printDirectory sd req (w\<lparr>hasSD := f\<rparr>) = (printDirectory sd req w)\<lparr>hasSD := f\<rparr>"
proof (cases rule: printDirectory_cases [where req = req and sd = sd])
  case no_dir
  then show ?thesis by (cases w) (simp add: printDirectory_no_dir)
next
  case bad_path
  then show ?thesis by (cases w) (simp add: printDirectory_bad_path)
next
  case no_root
  then show ?thesis by (cases w) (simp add: printDirectory_no_root)
next
  case (not_dir c)
  then show ?thesis by (cases w) (simp add: printDirectory_not_dir)
next
  case (listing es)
  then show ?thesis by (cases w) (simp add: printDirectory_listing)
qed

lemma streamRaw_ignores_hasSD:
  "streamRaw sd (w\<lparr>hasSD := f\<rparr>) = (streamRaw sd w)\<lparr>hasSD := f\<rparr>"
  by (cases w) (simp add: streamRaw_unfold)

lemma flag_writes_sector_events: "flag_writes (concat (map (sector_events sd) xs)) = []"
  by (induction xs) (simp_all add: sector_events_def)

lemma flag_writes_loop_events: "flag_writes (loop_events d h cnt es) = []"
  by (induction es arbitrary: h cnt) simp_all

lemma streamRaw_leaves_flag: "leaves_flag w (streamRaw sd w)"
  by (rule leaves_flagI [OF _ trace_streamRaw])
     (simp_all add: frame_streamRaw flag_writes_sector_events)

lemma printDirectory_leaves_flag: "leaves_flag w (printDirectory sd req w)"
proof (cases rule: printDirectory_cases [where req = req and sd = sd])
  case no_dir
  then show ?thesis by (simp add: printDirectory_no_dir leaves_flag_iff)
next
  case bad_path
  then show ?thesis by (simp add: printDirectory_bad_path leaves_flag_iff)
next
  case no_root
  then show ?thesis by (simp add: printDirectory_no_root leaves_flag_iff)
next
  case (not_dir c)
  then show ?thesis by (simp add: printDirectory_not_dir leaves_flag_iff)
next
  case (listing es)
  then show ?thesis by (simp add: printDirectory_listing leaves_flag_iff flag_writes_loop_events)
qed

lemma loadFromSdCard_world_cases:
  obtains (missing) p t where "loadFromSdCard_resolve path0 = (p, t)" "files sd p = None"
  | (regular) p t c where "loadFromSdCard_resolve path0 = (p, t)" "files sd p = Some (RegFile c)"
  | (dir_missing) p t es where "loadFromSdCard_resolve path0 = (p, t)"
      "files sd p = Some (Directory es)" "files sd (p @ ''/index.htm'') = None"
  | (dir_index) p t es n where "loadFromSdCard_resolve path0 = (p, t)"
      "files sd p = Some (Directory es)" "files sd (p @ ''/index.htm'') = Some n"
proof -
  obtain p t where r: "loadFromSdCard_resolve path0 = (p, t)"
    by (cases "loadFromSdCard_resolve path0")
  show ?thesis
  proof (cases "files sd p")
    case None
    with r show ?thesis by (rule missing)
  next
    case (Some n)
    show ?thesis
    proof (cases n)
      case (RegFile c)
      with Some have "files sd p = Some (RegFile c)" by simp
      with r show ?thesis by (rule regular)
    next
      case (Directory es)
      with Some have f: "files sd p = Some (Directory es)" by simp
      show ?thesis
      proof (cases "files sd (p @ ''/index.htm'')")
        case None
        with r f show ?thesis by (rule dir_missing)
      next
        case (Some n')
        with r f show ?thesis by (rule dir_index)
      qed
    qed
  qed
qed

lemma loadFromSdCard_leaves_flag: "leaves_flag w (snd (loadFromSdCard sd req path0 w))"
proof (cases rule: loadFromSdCard_world_cases [where ?path0.0 = path0 and sd = sd])
  case (missing p t)
  then show ?thesis by (simp add: loadFromSdCard_missing emit_def leaves_flag_iff)
next
  case (regular p t c)
  then show ?thesis by (simp add: loadFromSdCard_file leaves_flag_iff)
next
  case (dir_missing p t es)
  then show ?thesis by (simp add: loadFromSdCard_dir_missing leaves_flag_iff)
next
  case (dir_index p t es n)
  then show ?thesis by (simp add: loadFromSdCard_dir_index leaves_flag_iff)
qed

lemma loadFromSdCard_served_code:
  assumes "fst (loadFromSdCard sd req path0 w)"
  shows "resp_code (snd (loadFromSdCard sd req path0 w)) = Some 200"
proof (cases rule: loadFromSdCard_world_cases [where ?path0.0 = path0 and sd = sd])
  case (missing p t)
  with assms show ?thesis by (simp add: loadFromSdCard_missing)
next
  case (regular p t c)
  then show ?thesis by (simp add: loadFromSdCard_file)
next
  case (dir_missing p t es)
  with assms show ?thesis by (simp add: loadFromSdCard_dir_missing)
next
  case (dir_index p t es n)
  then show ?thesis by (simp add: loadFromSdCard_dir_index)
qed

lemma handleNotFound_served:
  assumes "\<not> reaches_fallback sd req w"
  shows "handleNotFound sd req w = Some (snd (loadFromSdCard sd req (uri req) w))"
  using assms
  by (cases "loadFromSdCard sd req (uri req) w")
     (simp add: handleNotFound_def reaches_fallback_def)

lemma handleNotFound_total:
  assumes "length (args req) < 256"
  shows "\<exists>w'. handleNotFound sd req w = Some w'"
proof (cases "reaches_fallback sd req w")
  case True
  then show ?thesis using assms by (simp add: handleNotFound_fallback)
next
  case False
  then show ?thesis by (simp add: handleNotFound_served)
qed

lemma after_lookup_leaves_flag: "leaves_flag w (after_lookup sd req w)"
  by (simp add: after_lookup_def loadFromSdCard_leaves_flag)

lemma handleNotFound_leaves_flag:
  assumes "handleNotFound sd req w = Some w'"
  shows "leaves_flag w w'"
proof (cases "reaches_fallback sd req w")
  case False
  with assms have "w' = snd (loadFromSdCard sd req (uri req) w)"
    by (simp add: handleNotFound_served)
  then show ?thesis by (simp add: loadFromSdCard_leaves_flag)
next
  case True
  then have "length (args req) < 256"
    using assms by (rule handleNotFound_returns)
  with True assms have w': "w' = Serial_print (not_found_message (hasSD w) req)
            (Server_send 404 ''text/plain'' (not_found_message (hasSD w) req)
              (after_lookup sd req w))"
    by (simp add: handleNotFound_fallback)
  have "leaves_flag (after_lookup sd req w) w'"
    by (simp add: w' leaves_flag_iff Serial_print_def Server_send_def emit_def)
  with after_lookup_leaves_flag show ?thesis
    by (rule leaves_flag_trans)
qed

lemma handleClient_leaves_flag:
  assumes "handleClient sd req w = Some w'"
  shows "leaves_flag w w'"
proof -
  let ?w0 = "w\<lparr>contentLength := CONTENT_LENGTH_NOT_SET, resp_code := None,
                  resp_type := [], resp_body := []\<rparr>"
  have 0: "leaves_flag w ?w0"
    by (simp add: leaves_flag_iff)
  from assms have "leaves_flag ?w0 w'"
    by (auto simp: handleClient_def Let_def printDirectory_leaves_flag streamRaw_leaves_flag
        handleNotFound_leaves_flag split: if_splits)
  with 0 show ?thesis
    by (rule leaves_flag_trans)
qed

lemma loop_leaves_flag:
  assumes "loop sd reqs w = Some w'"
  shows "leaves_flag w w'"
  using assms
proof (induction reqs arbitrary: w)
  case Nil
  then show ?case by simp
next
  case (Cons req reqs)
  then obtain w1 where 1: "handleClient sd req w = Some w1" and 2: "loop sd reqs w1 = Some w'"
    by (auto split: option.splits)
  from 1 have "leaves_flag w w1" by (rule handleClient_leaves_flag)
  moreover from 2 have "leaves_flag w1 w'" by (rule Cons.IH)
  ultimately show ?case by (rule leaves_flag_trans)
qed

lemma handleClient_total:
  assumes "length (args req) < 256"
  shows "\<exists>w'. handleClient sd req w = Some w'"
  using assms by (simp add: handleClient_def Let_def handleNotFound_total)

lemma setup'_Some:
  assumes "setup' b w = Some w1"
  shows "trace w1 = trace w @ Ev_server_begin # Ev_SD_begin (sd_begin b)
           # (if sd_begin b then [Ev_write_hasSD True] else []) \<and>
         hasSD w1 = (sd_begin b \<or> hasSD w)"
  using assms
  by (auto simp: setup'_def Let_def emit_def Serial_print_def Serial_println_def
      split: if_splits)

lemma handleNotFound_reads_hasSD:
  assumes "length (args req) < 256"
  shows "handleNotFound sd req (w\<lparr>hasSD := True\<rparr>) \<noteq>
         map_option (\<lambda>w'. w'\<lparr>hasSD := True\<rparr>) (handleNotFound sd req (w\<lparr>hasSD := False\<rparr>))"
proof -
  let ?wT = "w\<lparr>hasSD := True\<rparr>" and ?wF = "w\<lparr>hasSD := False\<rparr>"
  have fF: "reaches_fallback sd req ?wF"
    by (simp add: reaches_fallback_def)
  from handleNotFound_total [OF assms] obtain a where a: "handleNotFound sd req ?wF = Some a"
    by blast
  note bF = handleNotFound_body [OF fF a]
  show ?thesis
  proof (cases "reaches_fallback sd req ?wT")
    case False
    then have "handleNotFound sd req ?wT = Some (snd (loadFromSdCard sd req (uri req) ?wT))"
      by (rule handleNotFound_served)
    moreover from False have "resp_code (snd (loadFromSdCard sd req (uri req) ?wT)) = Some 200"
      by (simp add: reaches_fallback_def loadFromSdCard_served_code)
    ultimately show ?thesis
      using a bF by auto
  next
    case True
    from handleNotFound_total [OF assms] obtain c where c: "handleNotFound sd req ?wT = Some c"
      by blast
    note bT = handleNotFound_body [OF True c]
    have "resp_body c \<noteq> resp_body a"
      using bT bF by (simp add: not_found_message_def notice_def)
    then show ?thesis
      using a c by auto
  qed
qed

lemma wifi_wait_21:
  "i \<le> 20 \<Longrightarrow> (wifi_wait b i = 21) = (\<forall>k. i \<le> k \<and> k \<le> 20 \<longrightarrow> \<not> wifi_connected b k)"
proof (induction b i rule: wifi_wait.induct)
  case (1 b i)
  show ?case
  proof (cases "wifi_connected b i")
    case True
    with 1(2) show ?thesis
      by (subst wifi_wait.simps) auto
  next
    case False
    show ?thesis
    proof (cases "i < 20")
      case True
      have "(\<forall>k. i \<le> k \<and> k \<le> 20 \<longrightarrow> \<not> wifi_connected b k) =
            (\<forall>k. i + 1 \<le> k \<and> k \<le> 20 \<longrightarrow> \<not> wifi_connected b k)"
      proof
        assume "\<forall>k. i \<le> k \<and> k \<le> 20 \<longrightarrow> \<not> wifi_connected b k"
        then show "\<forall>k. i + 1 \<le> k \<and> k \<le> 20 \<longrightarrow> \<not> wifi_connected b k"
          by simp
      next
        assume a: "\<forall>k. i + 1 \<le> k \<and> k \<le> 20 \<longrightarrow> \<not> wifi_connected b k"
        show "\<forall>k. i \<le> k \<and> k \<le> 20 \<longrightarrow> \<not> wifi_connected b k"
        proof (intro allI impI)
          fix k
          assume "i \<le> k \<and> k \<le> 20"
          then have "k = i \<or> (i + 1 \<le> k \<and> k \<le> 20)"
            by auto
          with a False show "\<not> wifi_connected b k"
            by blast
        qed
      qed
      moreover have "(wifi_wait b (i + 1) = 21) =
            (\<forall>k. i + 1 \<le> k \<and> k \<le> 20 \<longrightarrow> \<not> wifi_connected b k)"
        using False True by (intro 1(1)) simp_all
      moreover have "wifi_wait b i = wifi_wait b (i + 1)"
        using False True by (subst wifi_wait.simps) simp
      ultimately show ?thesis
        by simp
    next
      case F: False
      with 1(2) have i: "i = 20" by simp
      have "wifi_wait b i = 21"
        using False i by (subst wifi_wait.simps) simp
      moreover have "\<forall>k. i \<le> k \<and> k \<le> 20 \<longrightarrow> \<not> wifi_connected b k"
        using False i by auto
      ultimately show ?thesis
        by simp
    qed
  qed
qed

lemma setup'_returns:
  "(\<exists>w1. setup' b w = Some w1) = (\<exists>k\<le>20. wifi_connected b k)"
proof -
  have "(\<exists>w1. setup' b w = Some w1) = (wifi_wait b 0 \<noteq> 21)"
    by (simp add: setup'_def Let_def)
  also have "\<dots> = (\<exists>k\<le>20. wifi_connected b k)"
    using wifi_wait_21 [of 0 b] by auto
  finally show ?thesis .
qed

lemma loop_total:
  assumes "\<forall>req \<in> set reqs. length (args req) < 256"
  shows "\<exists>w'. loop sd reqs w = Some w'"
  using assms
proof (induction reqs arbitrary: w)
  case Nil
  then show ?case by simp
next
  case (Cons req reqs)
  then have "length (args req) < 256" by simp
  then obtain w1 where 1: "handleClient sd req w = Some w1"
    using handleClient_total by blast
  from Cons have "\<exists>w'. loop sd reqs w1 = Some w'"
    by simp
  with 1 show ?case by simp
qed

text \<open>
  C6, as amended. Let \<open>setup\<close> return \<open>w1\<close> from the initial world and \<open>loop\<close> then serve
  the requests \<open>reqs\<close>, ending in \<open>w2\<close>. The flag starts false. \<open>setup\<close> starts the server,
  then the card, and writes the flag (to true) only when the card started, so once at most and
  after the handlers were registered; serving requests never writes it, so it keeps that value.
  The listing and raw-image handlers do not read it: they act the same whatever its value.
  Only the fallback handler reads it: it never acts the same with the flag true as with it false.
\<close>

theorem hasSD_written_at_most_once:
  assumes "setup' b world0 = Some w1" and "loop sd reqs w1 = Some w2"
  shows "\<not> hasSD world0 \<and>
         trace w1 = Ev_server_begin # Ev_SD_begin (sd_begin b)
            # (if sd_begin b then [Ev_write_hasSD True] else []) \<and>
         hasSD w1 = sd_begin b \<and>
         prefix (trace w1) (trace w2) \<and>
         flag_writes (trace w2) = (if sd_begin b then [True] else []) \<and>
         hasSD w2 = sd_begin b \<and>
         printDirectory sd req (w\<lparr>hasSD := f\<rparr>) = (printDirectory sd req w)\<lparr>hasSD := f\<rparr> \<and>
         streamRaw sd (w\<lparr>hasSD := f\<rparr>) = (streamRaw sd w)\<lparr>hasSD := f\<rparr> \<and>
         (length (args req) < 256 \<longrightarrow>
            handleNotFound sd req (w\<lparr>hasSD := True\<rparr>) \<noteq>
            map_option (\<lambda>w'. w'\<lparr>hasSD := True\<rparr>) (handleNotFound sd req (w\<lparr>hasSD := False\<rparr>)))"
proof -
  from assms(1) have s: "trace w1 = Ev_server_begin # Ev_SD_begin (sd_begin b)
            # (if sd_begin b then [Ev_write_hasSD True] else [])" "hasSD w1 = sd_begin b"
    using setup'_Some [of b world0 w1] by (simp_all add: world0_def)
  from assms(2) have "leaves_flag w1 w2"
    by (rule loop_leaves_flag)
  then obtain evs where l: "hasSD w2 = hasSD w1" "trace w2 = trace w1 @ evs" "flag_writes evs = []"
    by (auto simp: leaves_flag_iff)
  have "\<not> hasSD world0"
    by (simp add: world0_def)
  moreover have "prefix (trace w1) (trace w2)"
    using l(2) by simp
  moreover have "flag_writes (trace w2) = (if sd_begin b then [True] else [])"
    using l(2,3) s(1) by simp
  moreover have "hasSD w2 = sd_begin b"
    using l(1) s(2) by simp
  ultimately show ?thesis
    using s printDirectory_ignores_hasSD streamRaw_ignores_hasSD handleNotFound_reads_hasSD
    by blast
qed

theorem hasSD_written_at_most_once_witness:
  "\<exists>w1 w2. setup' board_with_card world0 = Some w1 \<and>
     loop demo_card [list_root, get ''/raw'' [], get_zz] w1 = Some w2 \<and>
     hasSD w2 \<and> flag_writes (trace w2) = [True] \<and>
     trace w1 = [Ev_server_begin, Ev_SD_begin True, Ev_write_hasSD True] \<and>
     length (args get_zz) < 256 \<and>
     handleNotFound demo_card get_zz (world0\<lparr>hasSD := True\<rparr>) \<noteq>
       map_option (\<lambda>w'. w'\<lparr>hasSD := True\<rparr>)
         (handleNotFound demo_card get_zz (world0\<lparr>hasSD := False\<rparr>))"
proof -
  have "\<exists>k\<le>20. wifi_connected board_with_card k"
    by (rule exI [of _ 3]) (simp add: board_with_card_def)
  then obtain w1 where 1: "setup' board_with_card world0 = Some w1"
    using setup'_returns [of board_with_card world0] by blast
  have "\<forall>req \<in> set [list_root, get ''/raw'' [], get_zz]. length (args req) < 256"
    by (simp add: list_root_def get_def get_zz_def)
  then obtain w2 where 2: "loop demo_card [list_root, get ''/raw'' [], get_zz] w1 = Some w2"
    using loop_total by blast
  have b: "sd_begin board_with_card"
    by (simp add: board_with_card_def)
  have z: "length (args get_zz) < 256"
    by (simp add: get_zz_def get_def)
  from hasSD_written_at_most_once [OF 1 2, where req = get_zz and w = world0] b 1 2 z
  show ?thesis
    by simp
qed

text \<open>
  C6 as stated fails: the flag is not read by all handlers. The listing handler and the
  raw-image handler give the same response and perform the same card operations with the
  flag true as with it false; and on a board whose card does not start the flag is never
  written at all.
\<close>

theorem hasSD_not_read_by_all_handlers_counterexample:
  "printDirectory demo_card list_root (world0\<lparr>hasSD := True\<rparr>)
     = (printDirectory demo_card list_root world0)\<lparr>hasSD := True\<rparr> \<and>
   streamRaw demo_card (world0\<lparr>hasSD := True\<rparr>) = (streamRaw demo_card world0)\<lparr>hasSD := True\<rparr> \<and>
   resp_code (printDirectory demo_card list_root world0) = Some 200 \<and>
   resp_code (streamRaw demo_card world0) = Some 200 \<and>
   \<not> hasSD world0 \<and>
   map_option trace (setup' board_without_card world0) = Some [Ev_server_begin, Ev_SD_begin False] \<and>
   flag_writes [Ev_server_begin, Ev_SD_begin False] = []"
proof -
  have "\<exists>k\<le>20. wifi_connected board_without_card k"
    by (rule exI [of _ 3]) (simp add: board_without_card_def)
  then obtain w1 where 1: "setup' board_without_card world0 = Some w1"
    using setup'_returns [of board_without_card world0] by blast
  have "trace w1 = [Ev_server_begin, Ev_SD_begin False]"
    using setup'_Some [OF 1] by (simp add: world0_def board_without_card_def)
  with 1 have "map_option trace (setup' board_without_card world0)
      = Some [Ev_server_begin, Ev_SD_begin False]"
    by simp
  moreover have "flag_writes [Ev_server_begin, Ev_SD_begin False] = []"
    by simp
  moreover have "printDirectory demo_card list_root (world0\<lparr>hasSD := True\<rparr>)
     = (printDirectory demo_card list_root world0)\<lparr>hasSD := True\<rparr>"
    by (rule printDirectory_ignores_hasSD)
  moreover have "streamRaw demo_card (world0\<lparr>hasSD := True\<rparr>)
      = (streamRaw demo_card world0)\<lparr>hasSD := True\<rparr>"
    by (rule streamRaw_ignores_hasSD)
  moreover have "resp_code (streamRaw demo_card world0) = Some 200"
    by (simp add: resp_code_streamRaw)
  moreover have "\<not> hasSD world0"
    by (simp add: world0_def)
  moreover have "resp_code (printDirectory demo_card list_root world0) = Some 200"
  proof -
    have h: "hasArg list_root ''dir''"
      by (simp add: hasArg_def get_def list_root_def)
    have a: "arg list_root ''dir'' = ''/''"
      by (simp add: arg_def get_def list_root_def)
    obtain es where "files demo_card (arg list_root ''dir'') = Some (Directory es)"
      by (simp add: a demo_card_def demo_files_def)
    with h show ?thesis
      by (simp add: printDirectory_listing)
  qed
  ultimately show ?thesis
    by blast
qed

end
